theory Spec2Isabelle
  imports
    Main
    "HOL-Library.List_Lexorder"
    "HOL-Library.Product_Lexorder"
    "HOL-Library.Multiset"
begin

section \<open>Strings\<close>

text \<open>
  A Python \<^verbatim>\<open>str\<close> is a sequence of Unicode code points, and \<^verbatim>\<open>len\<close>, slicing and
  \<^verbatim>\<open>split\<close> count code points. The separators of the source (\<^verbatim>\<open>U+FF0C\<close>, the
  full-width comma; \<^verbatim>\<open>U+3000\<close>, the ideographic space) and its ellipsis (\<^verbatim>\<open>U+2026\<close>) are
  not bytes, so a string is a list of code points here, and \<open>u\<close> reads an ASCII literal.
\<close>

type_synonym ustring = "nat list"

definition u :: "string \<Rightarrow> ustring" where
  "u s = map of_char s"

definition COMMA :: nat where "COMMA = 44"
definition FULLWIDTH_COMMA :: nat where "FULLWIDTH_COMMA = 65292"
definition SPACE :: nat where "SPACE = 32"
definition IDEOGRAPHIC_SPACE :: nat where "IDEOGRAPHIC_SPACE = 12288"
definition NEWLINE :: nat where "NEWLINE = 10"
definition ELLIPSIS :: nat where "ELLIPSIS = 8230"

text \<open>
  \<^verbatim>\<open>str.strip()\<close> removes leading and trailing code points for which \<^verbatim>\<open>str.isspace\<close>
  holds: the ASCII controls 9-13 and 28-31, the space, and the Unicode spaces listed below.
\<close>

definition py_isspace :: "nat \<Rightarrow> bool" where
  "py_isspace c \<longleftrightarrow>
     (9 \<le> c \<and> c \<le> 13) \<or> (28 \<le> c \<and> c \<le> 32) \<or> c = 133 \<or> c = 160 \<or> c = 5760 \<or>
     (8192 \<le> c \<and> c \<le> 8202) \<or> c = 8232 \<or> c = 8233 \<or> c = 8239 \<or> c = 8287 \<or> c = 12288"

definition py_strip :: "ustring \<Rightarrow> ustring" where
  "py_strip s = rev (dropWhile py_isspace (rev (dropWhile py_isspace s)))"

text \<open>
  \<^verbatim>\<open>str.lower()\<close> is the case mapping of the Unicode database the Python runtime carries:
  a table of some 1400 code points, one of which (\<^verbatim>\<open>U+0130\<close>) maps to two code points
  and one of which (\<^verbatim>\<open>U+03A3\<close>) maps by context. The table is not part of the
  repository, so every function of the model that calls \<^verbatim>\<open>.lower()\<close> takes the mapping as
  its argument \<open>lower\<close>. A string is lowercase when \<open>lower\<close> leaves it as it is.

  Two facts about \<^verbatim>\<open>str.lower\<close> are used, and stated as \<open>unicode_lower\<close> where a theorem
  needs them: on a string of ASCII code points it maps \<^verbatim>\<open>A-Z\<close> to \<^verbatim>\<open>a-z\<close> and nothing else;
  and it leaves every prefix of a lowered string as it is (each code point it produces is
  one it maps to itself, and none is the context-dependent \<^verbatim>\<open>U+03A3\<close>). \<open>ascii_lower\<close>,
  the mapping on the ASCII table alone, is the instance the examples use.
\<close>

definition lower_cp :: "nat \<Rightarrow> nat" where
  "lower_cp c = (if 65 \<le> c \<and> c \<le> 90 then c + 32 else c)"

definition ascii_lower :: "ustring \<Rightarrow> ustring" where
  "ascii_lower s = map lower_cp s"

definition is_lower :: "(ustring \<Rightarrow> ustring) \<Rightarrow> ustring \<Rightarrow> bool" where
  "is_lower lower s \<longleftrightarrow> lower s = s"

definition unicode_lower :: "(ustring \<Rightarrow> ustring) \<Rightarrow> bool" where
  "unicode_lower lower \<longleftrightarrow>
     (\<forall>s. (\<forall>c \<in> set s. c < 128) \<longrightarrow> lower s = map lower_cp s) \<and>
     (\<forall>s n. lower (take n (lower s)) = take n (lower s))"

text \<open>\<^verbatim>\<open>s.replace(a, b)\<close> for one-character \<open>a\<close> and \<open>b\<close>; \<^verbatim>\<open>s.split(sep)\<close> for a
  one-character separator (the result always has at least one piece).\<close>

definition py_replace :: "nat \<Rightarrow> nat \<Rightarrow> ustring \<Rightarrow> ustring" where
  "py_replace a b s = map (\<lambda>c. if c = a then b else c) s"

fun py_split :: "nat \<Rightarrow> ustring \<Rightarrow> ustring list" where
  "py_split sep [] = [[]]"
| "py_split sep (c # cs) =
     (if c = sep then [] # py_split sep cs
      else (case py_split sep cs of
              [] \<Rightarrow> [[c]]
            | p # ps \<Rightarrow> (c # p) # ps))"

section \<open>Tag normalizer (\<^verbatim>\<open>repo.parse_tags\<close>)\<close>

text \<open>The loop of \<^verbatim>\<open>parse_tags\<close> over \<open>items\<close>, with its two accumulators \<open>seen\<close> and
  \<open>dedup\<close>.\<close>

fun parse_tags_loop :: "ustring list \<Rightarrow> ustring set \<Rightarrow> ustring list \<Rightarrow> ustring list" where
  "parse_tags_loop [] seen dedup = dedup"
| "parse_tags_loop (t # ts) seen dedup =
     (if t = [] then parse_tags_loop ts seen dedup
      else
        (let t' = (if length t > 32 then take 32 t else t)
         in if t' \<notin> seen then parse_tags_loop ts (insert t' seen) (dedup @ [t'])
            else parse_tags_loop ts seen dedup))"

definition parse_tags :: "(ustring \<Rightarrow> ustring) \<Rightarrow> ustring \<Rightarrow> ustring list" where
  "parse_tags lower raw =
     (if raw = [] then []
      else
        (let items = map (\<lambda>t. lower (py_strip t))
                         (py_split COMMA (py_replace FULLWIDTH_COMMA COMMA raw))
         in parse_tags_loop items {} []))"

text \<open>
  The normalizer as the specification words it: split on the separator, trim, lowercase,
  truncate to 32 characters, drop the empty tokens, keep the first occurrence of each.
\<close>

fun dedup_first :: "'a list \<Rightarrow> 'a list" where
  "dedup_first [] = []"
| "dedup_first (x # xs) = x # dedup_first (removeAll x xs)"

fun split_where :: "(nat \<Rightarrow> bool) \<Rightarrow> ustring \<Rightarrow> ustring list" where
  "split_where P [] = [[]]"
| "split_where P (c # cs) =
     (if P c then [] # split_where P cs
      else (case split_where P cs of
              [] \<Rightarrow> [[c]]
            | p # ps \<Rightarrow> (c # p) # ps))"

definition normalize_tags_spec :: "(ustring \<Rightarrow> ustring) \<Rightarrow> ustring \<Rightarrow> ustring list" where
  "normalize_tags_spec lower raw =
     dedup_first
       (filter (\<lambda>t. t \<noteq> [])
          (map (\<lambda>t. take 32 (lower (py_strip t)))
             (split_where (\<lambda>c. c = COMMA \<or> c = FULLWIDTH_COMMA) raw)))"

section \<open>Storage (\<^verbatim>\<open>db.SCHEMA_SQL\<close>, \<^verbatim>\<open>db.connect\<close>)\<close>

text \<open>
  The tables of the schema, each a list of rows in insertion order. Timestamps are the
  \<^verbatim>\<open>TEXT\<close> values that \<^verbatim>\<open>_now_iso()\<close> produced, compared as SQLite compares text
  (code point by code point); the clock reading is an argument of every operation that
  stamps a row. \<open>notes_seq\<close> and \<open>tags_seq\<close> are the \<^verbatim>\<open>sqlite_sequence\<close> counters of the
  two \<^verbatim>\<open>AUTOINCREMENT\<close> keys. An entry of \<open>notes_fts\<close> is what was indexed for a rowid.
\<close>

datatype error =
    IntegrityError | AssertionError | OperationalError | UnicodeEncodeError | OverflowError

record note_row =
  n_id :: int
  n_title :: ustring
  n_content :: ustring
  n_pinned :: int
  n_created_at :: ustring
  n_updated_at :: ustring

type_synonym tag_row = "int \<times> ustring"
type_synonym note_tag_row = "int \<times> int"
type_synonym fts_row = "int \<times> ustring \<times> ustring"

record db =
  "notes" :: "note_row list"
  notes_seq :: int
  tags :: "tag_row list"
  tags_seq :: int
  note_tags :: "note_tag_row list"
  notes_fts :: "fts_row list"

text \<open>The database after \<^verbatim>\<open>init_db\<close> on a fresh file: every table empty.\<close>

definition init_db :: db where
  "init_db = \<lparr>notes = [], notes_seq = 0, tags = [], tags_seq = 0, note_tags = [], notes_fts = []\<rparr>"

text \<open>
  The parameters of a statement. \<^verbatim>\<open>conn.execute(sql, params)\<close> binds them in order before
  the statement runs, and the first one that does not fit raises: a string is bound as
  UTF-8, which has no encoding for a lone surrogate (\<^verbatim>\<open>UnicodeEncodeError\<close>; a code point
  above \<^verbatim>\<open>U+10FFFF\<close> is in no Python string), and an integer is bound as a signed 64-bit
  value (\<^verbatim>\<open>OverflowError\<close>). A statement whose binding raised has changed nothing.
  The limits of the engine on the size of one value and of the database file
  (\<^verbatim>\<open>SQLITE_MAX_LENGTH\<close>, the disk) are outside the model: a value is taken to fit.
\<close>

definition INT64_MAX :: int where
  "INT64_MAX = 9223372036854775807"

definition int64 :: "int \<Rightarrow> bool" where
  "int64 i \<longleftrightarrow> - INT64_MAX - 1 \<le> i \<and> i \<le> INT64_MAX"

definition utf8_encodable :: "ustring \<Rightarrow> bool" where
  "utf8_encodable t \<longleftrightarrow> (\<forall>c \<in> set t. c < 55296 \<or> (57344 \<le> c \<and> c \<le> 1114111))"

datatype param = PText ustring | PInt int

fun bind_parameters :: "param list \<Rightarrow> error option" where
  "bind_parameters [] = None"
| "bind_parameters (PText t # ps) =
     (if utf8_encodable t then bind_parameters ps else Some UnicodeEncodeError)"
| "bind_parameters (PInt i # ps) =
     (if int64 i then bind_parameters ps else Some OverflowError)"

text \<open>
  An \<^verbatim>\<open>AUTOINCREMENT\<close> key is one more than the largest rowid the table ever held. When
  that was the largest 64-bit integer, the insert fails (\<^verbatim>\<open>SQLITE_FULL\<close>, which the binding
  raises as \<^verbatim>\<open>OperationalError\<close>).
\<close>

definition next_rowid :: "int \<Rightarrow> int list \<Rightarrow> int" where
  "next_rowid seq ids = fold max ids seq + 1"

text \<open>The two statements the triggers run on the index: the insertion of an entry, and
  the \<^verbatim>\<open>'delete'\<close> command, which removes the entry indexed under these values.\<close>

definition fts_insert :: "fts_row \<Rightarrow> db \<Rightarrow> db" where
  "fts_insert e s = s\<lparr>notes_fts := notes_fts s @ [e]\<rparr>"

definition fts_delete :: "fts_row \<Rightarrow> db \<Rightarrow> db" where
  "fts_delete e s = s\<lparr>notes_fts := remove1 e (notes_fts s)\<rparr>"

definition fts_entry :: "note_row \<Rightarrow> fts_row" where
  "fts_entry r = (n_id r, n_title r, n_content r)"

text \<open>The triggers \<^verbatim>\<open>notes_ai\<close>, \<^verbatim>\<open>notes_ad\<close> and \<^verbatim>\<open>notes_au\<close>.\<close>

definition notes_ai :: "note_row \<Rightarrow> db \<Rightarrow> db" where
  "notes_ai new s = fts_insert (fts_entry new) s"

definition notes_ad :: "note_row \<Rightarrow> db \<Rightarrow> db" where
  "notes_ad old s = fts_delete (fts_entry old) s"

definition notes_au :: "note_row \<Rightarrow> note_row \<Rightarrow> db \<Rightarrow> db" where
  "notes_au old new s = fts_insert (fts_entry new) (fts_delete (fts_entry old) s)"

text \<open>\<^verbatim>\<open>INSERT INTO notes(title, content, pinned, created_at, updated_at)\<close>: the new row
  and its rowid (\<^verbatim>\<open>cur.lastrowid\<close>); the insert trigger runs in the same statement.\<close>

definition insert_note ::
  "db \<Rightarrow> ustring \<Rightarrow> ustring \<Rightarrow> int \<Rightarrow> ustring \<Rightarrow> ustring \<Rightarrow> db \<times> (error + int)" where
  "insert_note s t c p created updated =
     (let i = next_rowid (notes_seq s) (map n_id (notes s));
          new = \<lparr>n_id = i, n_title = t, n_content = c, n_pinned = p,
                 n_created_at = created, n_updated_at = updated\<rparr>
      in if i > INT64_MAX then (s, Inl OperationalError)
         else (notes_ai new (s\<lparr>notes := notes s @ [new], notes_seq := i\<rparr>), Inr i))"

text \<open>\<^verbatim>\<open>UPDATE notes SET ... WHERE id = ?\<close>: every row with this id is rewritten by \<open>f\<close>,
  and the update trigger runs for each of them.\<close>

definition update_notes :: "(note_row \<Rightarrow> note_row) \<Rightarrow> int \<Rightarrow> db \<Rightarrow> db" where
  "update_notes f i s =
     fold (\<lambda>old. notes_au old (f old)) (filter (\<lambda>r. n_id r = i) (notes s))
       (s\<lparr>notes := map (\<lambda>r. if n_id r = i then f r else r) (notes s)\<rparr>)"

text \<open>\<^verbatim>\<open>DELETE FROM notes WHERE id = ?\<close>: each deleted row takes its associations with it
  (\<^verbatim>\<open>ON DELETE CASCADE\<close>) and fires the delete trigger.\<close>

definition delete_notes :: "int \<Rightarrow> db \<Rightarrow> db" where
  "delete_notes i s =
     fold (\<lambda>old s'. notes_ad old (s'\<lparr>note_tags := filter (\<lambda>nt. fst nt \<noteq> n_id old) (note_tags s')\<rparr>))
       (filter (\<lambda>r. n_id r = i) (notes s))
       (s\<lparr>notes := filter (\<lambda>r. n_id r \<noteq> i) (notes s)\<rparr>)"

text \<open>
  \<^verbatim>\<open>INSERT OR IGNORE INTO tags(name)\<close>: a name already present violates \<^verbatim>\<open>UNIQUE\<close> and
  the row is skipped (the sequence counter has advanced all the same). The comparison of
  names is SQLite's \<^verbatim>\<open>BINARY\<close> collation: equality of the strings.
\<close>

definition insert_or_ignore_tag :: "db \<Rightarrow> ustring \<Rightarrow> db \<times> (error + unit)" where
  "insert_or_ignore_tag s name =
     (let i = next_rowid (tags_seq s) (map fst (tags s))
      in if i > INT64_MAX then (s, Inl OperationalError)
         else if name \<in> snd ` set (tags s) then (s\<lparr>tags_seq := i\<rparr>, Inr ())
         else (s\<lparr>tags := tags s @ [(i, name)], tags_seq := i\<rparr>, Inr ()))"

text \<open>
  \<^verbatim>\<open>INSERT OR IGNORE INTO note_tags(note_id, tag_id)\<close>: a pair already present violates the
  primary key and is skipped; \<^verbatim>\<open>OR IGNORE\<close> does not cover foreign keys, so with
  \<^verbatim>\<open>PRAGMA foreign_keys = ON\<close> a note id or tag id without a parent row fails the statement
  (\<^verbatim>\<open>sqlite3.IntegrityError\<close>).
\<close>

definition insert_or_ignore_note_tag :: "db \<Rightarrow> int \<Rightarrow> int \<Rightarrow> db \<times> (error + unit)" where
  "insert_or_ignore_note_tag s note_id tag_id =
     (if (note_id, tag_id) \<in> set (note_tags s) then (s, Inr ())
      else if note_id \<notin> n_id ` set (notes s) \<or> tag_id \<notin> fst ` set (tags s)
           then (s, Inl IntegrityError)
      else (s\<lparr>note_tags := note_tags s @ [(note_id, tag_id)]\<rparr>, Inr ()))"

text \<open>
  The scoped connection of \<^verbatim>\<open>db.connect\<close>: the body runs on the connection; when it
  returns the transaction is committed, when it raises the transaction is rolled back to
  the state at entry and the exception is raised again. A body returns the state it
  reached together with its value or its exception.
\<close>

definition connect :: "db \<Rightarrow> (db \<Rightarrow> db \<times> (error + 'a)) \<Rightarrow> db \<times> (error + 'a)" where
  "connect s body =
     (case body s of
        (s', Inr v) \<Rightarrow> (s', Inr v)
      | (s', Inl e) \<Rightarrow> (s, Inl e))"

section \<open>Note repository (\<^verbatim>\<open>repo.py\<close>)\<close>

definition ensure_tag :: "db \<Rightarrow> ustring \<Rightarrow> db \<times> (error + int)" where
  "ensure_tag s name =
     (case bind_parameters [PText name] of
        Some e \<Rightarrow> (s, Inl e)
      | None \<Rightarrow>
          (case insert_or_ignore_tag s name of
             (s1, Inl e) \<Rightarrow> (s1, Inl e)
           | (s1, Inr _) \<Rightarrow>
               (case find (\<lambda>t. snd t = name) (tags s1) of
                  None \<Rightarrow> (s1, Inl AssertionError)
                | Some row \<Rightarrow> (s1, Inr (fst row)))))"

fun set_note_tags_loop :: "db \<Rightarrow> int \<Rightarrow> ustring list \<Rightarrow> db \<times> (error + unit)" where
  "set_note_tags_loop s note_id [] = (s, Inr ())"
| "set_note_tags_loop s note_id (name # names) =
     (case ensure_tag s name of
        (s1, Inl e) \<Rightarrow> (s1, Inl e)
      | (s1, Inr tag_id) \<Rightarrow>
          (case bind_parameters [PInt note_id, PInt tag_id] of
             Some e \<Rightarrow> (s1, Inl e)
           | None \<Rightarrow>
               (case insert_or_ignore_note_tag s1 note_id tag_id of
                  (s2, Inl e) \<Rightarrow> (s2, Inl e)
                | (s2, Inr _) \<Rightarrow> set_note_tags_loop s2 note_id names)))"

definition set_note_tags :: "db \<Rightarrow> int \<Rightarrow> ustring list \<Rightarrow> db \<times> (error + unit)" where
  "set_note_tags s note_id tgs =
     (case bind_parameters [PInt note_id] of
        Some e \<Rightarrow> (s, Inl e)
      | None \<Rightarrow>
          set_note_tags_loop
            (s\<lparr>note_tags := filter (\<lambda>nt. fst nt \<noteq> note_id) (note_tags s)\<rparr>) note_id tgs)"

text \<open>\<^verbatim>\<open>_get_tags_for_note\<close> is only called with the id of a row that was just read,
  which is an SQLite integer and binds.\<close>

definition get_tags_for_note :: "db \<Rightarrow> int \<Rightarrow> ustring list" where
  "get_tags_for_note s note_id =
     sort [snd t. t \<leftarrow> tags s, nt \<leftarrow> note_tags s, snd nt = fst t \<and> fst nt = note_id]"

text \<open>Python's \<^verbatim>\<open>a or b\<close> on strings.\<close>

definition py_or :: "ustring \<Rightarrow> ustring \<Rightarrow> ustring" where
  "py_or a b = (if a = [] then b else a)"

definition create_note :: "db \<Rightarrow> ustring \<Rightarrow> ustring \<Rightarrow> ustring list \<Rightarrow> ustring \<Rightarrow> db \<times> (error + int)" where
  "create_note s title content tgs now =
     (case bind_parameters [PText (py_or (py_strip title) (u ''Untitled'')),
                            PText (py_or content []), PText now, PText now] of
        Some e \<Rightarrow> (s, Inl e)
      | None \<Rightarrow>
          (case insert_note s (py_or (py_strip title) (u ''Untitled'')) (py_or content []) 0 now now of
             (s1, Inl e) \<Rightarrow> (s1, Inl e)
           | (s1, Inr note_id) \<Rightarrow>
               (case set_note_tags s1 note_id tgs of
                  (s2, Inl e) \<Rightarrow> (s2, Inl e)
                | (s2, Inr _) \<Rightarrow> (s2, Inr note_id))))"

definition update_note :: "db \<Rightarrow> int \<Rightarrow> ustring \<Rightarrow> ustring \<Rightarrow> ustring list \<Rightarrow> ustring \<Rightarrow> db \<times> (error + unit)" where
  "update_note s note_id title content tgs now =
     (case bind_parameters [PText (py_or (py_strip title) (u ''Untitled'')),
                            PText (py_or content []), PText now, PInt note_id] of
        Some e \<Rightarrow> (s, Inl e)
      | None \<Rightarrow>
          set_note_tags
            (update_notes
               (\<lambda>r. r\<lparr>n_title := py_or (py_strip title) (u ''Untitled''),
                      n_content := py_or content [], n_updated_at := now\<rparr>)
               note_id s)
            note_id tgs)"

definition delete_note :: "db \<Rightarrow> int \<Rightarrow> db \<times> (error + unit)" where
  "delete_note s note_id =
     (case bind_parameters [PInt note_id] of
        Some e \<Rightarrow> (s, Inl e)
      | None \<Rightarrow> (delete_notes note_id s, Inr ()))"

definition toggle_pin :: "db \<Rightarrow> int \<Rightarrow> ustring \<Rightarrow> db \<times> (error + unit)" where
  "toggle_pin s note_id now =
     (case bind_parameters [PInt note_id] of
        Some e \<Rightarrow> (s, Inl e)
      | None \<Rightarrow>
          (let s1 = update_notes (\<lambda>r. r\<lparr>n_pinned := (if n_pinned r = 1 then 0 else 1)\<rparr>) note_id s
           in case bind_parameters [PText now, PInt note_id] of
                Some e \<Rightarrow> (s1, Inl e)
              | None \<Rightarrow> (update_notes (\<lambda>r. r\<lparr>n_updated_at := now\<rparr>) note_id s1, Inr ())))"

subsection \<open>Queries\<close>

record note_out =
  o_id :: int
  o_title :: ustring
  o_content :: ustring
  o_pinned :: bool
  o_created_at :: ustring
  o_updated_at :: ustring
  o_tags :: "ustring list"

definition get_note :: "db \<Rightarrow> int \<Rightarrow> error + note_out option" where
  "get_note s note_id =
     (case bind_parameters [PInt note_id] of
        Some e \<Rightarrow> Inl e
      | None \<Rightarrow>
          (case find (\<lambda>r. n_id r = note_id) (notes s) of
             None \<Rightarrow> Inr None
           | Some row \<Rightarrow>
               Inr (Some \<lparr>o_id = n_id row, o_title = n_title row, o_content = n_content row,
                     o_pinned = (n_pinned row \<noteq> 0), o_created_at = n_created_at row,
                     o_updated_at = n_updated_at row, o_tags = get_tags_for_note s (n_id row)\<rparr>)))"

record note_list_item =
  i_id :: int
  i_title :: ustring
  i_excerpt :: ustring
  i_pinned :: bool
  i_created_at :: ustring
  i_updated_at :: ustring
  i_tags :: "ustring list"

text \<open>The excerpt both listings build: the content trimmed, newlines turned into spaces,
  cut after \<open>n\<close> code points with an ellipsis appended when it was longer.\<close>

definition excerpt :: "nat \<Rightarrow> ustring \<Rightarrow> ustring" where
  "excerpt n content =
     (let e = py_replace NEWLINE SPACE (py_strip (py_or content []))
      in if length e > n then take n e @ [ELLIPSIS] else e)"

definition summary :: "nat \<Rightarrow> db \<Rightarrow> note_row \<Rightarrow> note_list_item" where
  "summary n s r =
     \<lparr>i_id = n_id r, i_title = n_title r, i_excerpt = excerpt n (n_content r),
      i_pinned = (n_pinned r \<noteq> 0), i_created_at = n_created_at r,
      i_updated_at = n_updated_at r, i_tags = get_tags_for_note s (n_id r)\<rparr>"

text \<open>\<^verbatim>\<open>LIMIT ?\<close>: a negative bound means no bound.\<close>

definition sql_limit :: "int \<Rightarrow> 'a list \<Rightarrow> 'a list" where
  "sql_limit limit rows = (if limit < 0 then rows else take (nat limit) rows)"

text \<open>
  \<^verbatim>\<open>ORDER BY pinned DESC, updated_at DESC\<close>. SQLite leaves the order of rows with equal
  keys open; here they keep the order of the scan.
\<close>

definition order_pinned_updated :: "note_row list \<Rightarrow> note_row list" where
  "order_pinned_updated rows = rev (sort_key (\<lambda>r. (n_pinned r, n_updated_at r)) (rev rows))"

definition tagged_notes :: "db \<Rightarrow> ustring \<Rightarrow> note_row list" where
  "tagged_notes s name =
     [n. n \<leftarrow> notes s, nt \<leftarrow> note_tags s, fst nt = n_id n,
         t \<leftarrow> tags s, fst t = snd nt, snd t = name]"

definition list_notes ::
  "(ustring \<Rightarrow> ustring) \<Rightarrow> db \<Rightarrow> ustring option \<Rightarrow> int \<Rightarrow> error + note_list_item list" where
  "list_notes lower s tag limit =
     (case (case tag of
              Some tg \<Rightarrow>
                if tg \<noteq> [] then
                  (case bind_parameters [PText (lower tg), PInt limit] of
                     Some e \<Rightarrow> Inl e
                   | None \<Rightarrow> Inr (sql_limit limit (order_pinned_updated (tagged_notes s (lower tg)))))
                else
                  (case bind_parameters [PInt limit] of
                     Some e \<Rightarrow> Inl e
                   | None \<Rightarrow> Inr (sql_limit limit (order_pinned_updated (notes s))))
            | None \<Rightarrow>
                (case bind_parameters [PInt limit] of
                   Some e \<Rightarrow> Inl e
                 | None \<Rightarrow> Inr (sql_limit limit (order_pinned_updated (notes s))))) of
        Inl e \<Rightarrow> Inl e
      | Inr rows \<Rightarrow> Inr (map (summary 160 s) rows))"

text \<open>
  \<^verbatim>\<open>LEFT JOIN ... GROUP BY t.id\<close>: one row per tag (the key is unique), with the number of
  its associations; \<^verbatim>\<open>ORDER BY cnt DESC, name ASC\<close>.
\<close>

definition list_tags :: "db \<Rightarrow> (ustring \<times> nat) list" where
  "list_tags s =
     sort_key (\<lambda>(name, cnt). (- int cnt, name))
       (map (\<lambda>t. (snd t, length (filter (\<lambda>nt. snd nt = fst t) (note_tags s)))) (tags s))"

subsection \<open>Full-text search\<close>

text \<open>
  The FTS5 engine is SQLite's. Two parts of it are arguments of the model: the
  \<^verbatim>\<open>unicode61\<close> tokenizer \<open>tk\<close>, which turns a text into its list of folded tokens, and
  the score \<open>rk\<close> that \<^verbatim>\<open>bm25(notes_fts, 1.0, 0.6)\<close> gives an entry for a query over an
  index. The query language is modelled on the fragment the repository produces from plain
  words: barewords, joined by \<^verbatim>\<open>AND\<close> (or by juxtaposition, which means the same). A
  bareword consists of ASCII letters and digits, the underscore, the substitute character
  and code points from 128; the barewords \<^verbatim>\<open>AND\<close>, \<^verbatim>\<open>OR\<close>, \<^verbatim>\<open>NOT\<close> are operators. A
  query outside the fragment (quotes, column filters, prefix stars, \<^verbatim>\<open>OR\<close> and \<^verbatim>\<open>NOT\<close>
  between terms) has the value \<open>None\<close>: the model says nothing about it.
\<close>

definition fts5_bareword_char :: "nat \<Rightarrow> bool" where
  "fts5_bareword_char c \<longleftrightarrow>
     (48 \<le> c \<and> c \<le> 57) \<or> (65 \<le> c \<and> c \<le> 90) \<or> (97 \<le> c \<and> c \<le> 122) \<or>
     c = 95 \<or> c = 26 \<or> 128 \<le> c"

definition fts5_whitespace :: "nat \<Rightarrow> bool" where
  "fts5_whitespace c \<longleftrightarrow> c = 32 \<or> c = 9 \<or> c = 10 \<or> c = 13"

definition fts5_keyword :: "ustring \<Rightarrow> bool" where
  "fts5_keyword w \<longleftrightarrow> w = u ''AND'' \<or> w = u ''OR'' \<or> w = u ''NOT''"

text \<open>The words of a query made of barewords only: the list of its phrases, a syntax
  error, or \<open>None\<close> where \<^verbatim>\<open>OR\<close> or \<^verbatim>\<open>NOT\<close> stands between two terms.\<close>

fun fts5_conj :: "ustring list \<Rightarrow> (error + ustring list) option" where
  "fts5_conj [] = None"
| "fts5_conj [w] = (if fts5_keyword w then Some (Inl OperationalError) else Some (Inr [w]))"
| "fts5_conj (w # a # rest) =
     (if fts5_keyword w then Some (Inl OperationalError)
      else if a = u ''AND'' then
        (if rest = [] then Some (Inl OperationalError)
         else (case fts5_conj rest of
                 Some (Inr ps) \<Rightarrow> Some (Inr (w # ps))
               | r \<Rightarrow> r))
      else if fts5_keyword a then None
      else (case fts5_conj (a # rest) of
              Some (Inr ps) \<Rightarrow> Some (Inr (w # ps))
            | r \<Rightarrow> r))"

definition fts5_parse :: "ustring \<Rightarrow> (error + ustring list) option" where
  "fts5_parse m =
     (let ws = filter (\<lambda>w. w \<noteq> []) (split_where fts5_whitespace m)
      in if \<forall>w \<in> set ws. \<forall>c \<in> set w. fts5_bareword_char c then fts5_conj ws else None)"

text \<open>A phrase matches an entry when its tokens stand next to each other, in this
  order, in the title or in the content; a phrase without tokens matches nothing.\<close>

fun phrase_in :: "'a list \<Rightarrow> 'a list \<Rightarrow> bool" where
  "phrase_in p [] = (p = [])"
| "phrase_in p (x # xs) = (take (length p) (x # xs) = p \<or> phrase_in p xs)"

definition fts5_match :: "(ustring \<Rightarrow> ustring list) \<Rightarrow> ustring list \<Rightarrow> fts_row \<Rightarrow> bool" where
  "fts5_match tk phrases e \<longleftrightarrow>
     list_all (\<lambda>p. tk p \<noteq> [] \<and>
                  (phrase_in (tk p) (tk (fst (snd e))) \<or> phrase_in (tk p) (tk (snd (snd e)))))
       phrases"

fun py_join :: "ustring \<Rightarrow> ustring list \<Rightarrow> ustring" where
  "py_join sep [] = []"
| "py_join sep [x] = x"
| "py_join sep (x # y # ys) = x @ sep @ py_join sep (y # ys)"

definition search_notes ::
  "(ustring \<Rightarrow> ustring list) \<Rightarrow> (fts_row list \<Rightarrow> ustring \<Rightarrow> fts_row \<Rightarrow> 'r::linorder) \<Rightarrow>
   db \<Rightarrow> ustring \<Rightarrow> int \<Rightarrow> (error + note_list_item list) option" where
  "search_notes tk rk s query limit =
     (let q = py_strip (py_or query [])
      in if q = [] then Some (Inr [])
         else
           (let tokens = filter (\<lambda>t. t \<noteq> []) (py_split SPACE (py_replace IDEOGRAPHIC_SPACE SPACE q));
                match = py_join (u '' AND '') tokens
            in case bind_parameters [PText match, PInt limit] of
                 Some e \<Rightarrow> Some (Inl e)
               | None \<Rightarrow>
                   (case fts5_parse match of
                      None \<Rightarrow> None
                    | Some (Inl e) \<Rightarrow> Some (Inl e)
                    | Some (Inr phrases) \<Rightarrow>
                        (let rows = sql_limit limit
                               (map snd (sort_key (\<lambda>(e, n). rk (notes_fts s) match e)
                                  [(e, n). e \<leftarrow> notes_fts s, fts5_match tk phrases e,
                                           n \<leftarrow> notes s, n_id n = fst e]))
                         in Some (Inr (map (summary 180 s) rows))))))"

text \<open>A tokenizer for the examples: \<^verbatim>\<open>unicode61\<close> on ASCII text, where a token is a
  maximal run of letters and digits, folded to lower case.\<close>

definition ascii_alnum :: "nat \<Rightarrow> bool" where
  "ascii_alnum c \<longleftrightarrow> (48 \<le> c \<and> c \<le> 57) \<or> (65 \<le> c \<and> c \<le> 90) \<or> (97 \<le> c \<and> c \<le> 122)"

definition ascii_tokenize :: "ustring \<Rightarrow> ustring list" where
  "ascii_tokenize s = filter (\<lambda>w. w \<noteq> []) (split_where (\<lambda>c. \<not> ascii_alnum c) (ascii_lower s))"

subsection \<open>Reachable states\<close>

text \<open>
  The mutating operations as values, and the state each leaves on the connection,
  whether it returned or raised. The states a caller can reach from the empty database
  are those after any sequence of such calls, with any arguments.
\<close>

datatype op =
    CreateNote ustring ustring "ustring list" ustring
  | UpdateNote int ustring ustring "ustring list" ustring
  | DeleteNote int
  | TogglePin int ustring

fun run_op :: "db \<Rightarrow> op \<Rightarrow> db \<times> (error + unit)" where
  "run_op s (CreateNote title content tgs now) =
     (case create_note s title content tgs now of
        (s', Inl e) \<Rightarrow> (s', Inl e)
      | (s', Inr _) \<Rightarrow> (s', Inr ()))"
| "run_op s (UpdateNote note_id title content tgs now) = update_note s note_id title content tgs now"
| "run_op s (DeleteNote note_id) = delete_note s note_id"
| "run_op s (TogglePin note_id now) = toggle_pin s note_id now"

inductive reachable :: "db \<Rightarrow> bool" where
  reachable_init: "reachable init_db"
| reachable_step: "reachable s \<Longrightarrow> reachable (fst (run_op s opn))"

text \<open>The same, when every tag list handed to the repository comes out of
  \<open>parse_tags\<close>, as in the two form handlers of \<^verbatim>\<open>web.py\<close>.\<close>

inductive reachable_parsed :: "(ustring \<Rightarrow> ustring) \<Rightarrow> db \<Rightarrow> bool"
  for lower :: "ustring \<Rightarrow> ustring" where
  parsed_init: "reachable_parsed lower init_db"
| parsed_create:
    "reachable_parsed lower s \<Longrightarrow>
       reachable_parsed lower (fst (run_op s (CreateNote title content (parse_tags lower raw) now)))"
| parsed_update:
    "reachable_parsed lower s \<Longrightarrow>
       reachable_parsed lower
         (fst (run_op s (UpdateNote note_id title content (parse_tags lower raw) now)))"
| parsed_delete:
    "reachable_parsed lower s \<Longrightarrow> reachable_parsed lower (fst (run_op s (DeleteNote note_id)))"
| parsed_toggle:
    "reachable_parsed lower s \<Longrightarrow> reachable_parsed lower (fst (run_op s (TogglePin note_id now)))"

text \<open>
  What the schema and the operations keep true of a database: the keys and the tag names
  are unique, every association has its note and its tag, the index holds one entry for
  each note, with the note's title and content, \<open>pinned\<close> is 0 or 1, and every rowid is
  positive and at most the counter of its table, which is at most the largest 64-bit
  integer.
\<close>

definition wf_db :: "db \<Rightarrow> bool" where
  "wf_db s \<longleftrightarrow>
     0 \<le> notes_seq s \<and> notes_seq s \<le> INT64_MAX \<and>
     0 \<le> tags_seq s \<and> tags_seq s \<le> INT64_MAX \<and>
     (\<forall>r \<in> set (notes s). 0 < n_id r \<and> n_id r \<le> notes_seq s) \<and>
     (\<forall>t \<in> set (tags s). 0 < fst t \<and> fst t \<le> tags_seq s) \<and>
     distinct (map n_id (notes s)) \<and>
     distinct (map fst (tags s)) \<and>
     distinct (map snd (tags s)) \<and>
     distinct (note_tags s) \<and>
     (\<forall>nt \<in> set (note_tags s). fst nt \<in> n_id ` set (notes s) \<and> snd nt \<in> fst ` set (tags s)) \<and>
     mset (notes_fts s) = mset (map fts_entry (notes s)) \<and>
     (\<forall>r \<in> set (notes s). n_pinned r = 0 \<or> n_pinned r = 1)"

section \<open>Predicates of the statements\<close>

text \<open>A tag name as the normalizer leaves it.\<close>

definition tag_name_ok :: "(ustring \<Rightarrow> ustring) \<Rightarrow> ustring \<Rightarrow> bool" where
  "tag_name_ok lower name \<longleftrightarrow> name \<noteq> [] \<and> is_lower lower name \<and> length name \<le> 32"

text \<open>Rowids are left for one more note and \<open>n\<close> more inserts into the tags table.\<close>

definition rowids_left :: "db \<Rightarrow> nat \<Rightarrow> bool" where
  "rowids_left s n \<longleftrightarrow> notes_seq s < INT64_MAX \<and> tags_seq s + int n \<le> INT64_MAX"

text \<open>The order of a listing, on its items; and a database of three notes, the second
  pinned after the others were written.\<close>

definition pinned_first :: "note_list_item \<Rightarrow> note_list_item \<Rightarrow> bool" where
  "pinned_first a b \<longleftrightarrow>
     (i_pinned a \<and> \<not> i_pinned b) \<or> (i_pinned a = i_pinned b \<and> i_updated_at b \<le> i_updated_at a)"

definition three_notes :: db where
  "three_notes =
     fst (run_op (fst (run_op (fst (run_op (fst (run_op init_db
       (CreateNote (u ''a'') (u ''first'') [] (u ''2024-01-03''))))
       (CreateNote (u ''b'') (u ''second'') [] (u ''2024-01-01''))))
       (CreateNote (u ''c'') (u ''third'') [] (u ''2024-01-02''))))
       (TogglePin 2 (u ''2024-01-00'')))"

text \<open>The names of the tags associated with a note.\<close>

definition tag_names_of :: "db \<Rightarrow> int \<Rightarrow> ustring set" where
  "tag_names_of s note_id = {snd t | t. t \<in> set (tags s) \<and> (note_id, fst t) \<in> set (note_tags s)}"

text \<open>A query of one plain word; a text, and a note, holding the tokens of a word next
  to each other.\<close>

definition plain_word :: "ustring \<Rightarrow> bool" where
  "plain_word tok \<longleftrightarrow>
     tok \<noteq> [] \<and> utf8_encodable tok \<and>
     (\<forall>c \<in> set tok. fts5_bareword_char c \<and> \<not> py_isspace c) \<and> \<not> fts5_keyword tok"

definition has_token :: "(ustring \<Rightarrow> ustring list) \<Rightarrow> ustring \<Rightarrow> ustring \<Rightarrow> bool" where
  "has_token tk tok text \<longleftrightarrow> tk tok \<noteq> [] \<and> phrase_in (tk tok) (tk text)"

definition note_has_token :: "(ustring \<Rightarrow> ustring list) \<Rightarrow> ustring \<Rightarrow> note_row \<Rightarrow> bool" where
  "note_has_token tk tok r \<longleftrightarrow> has_token tk tok (n_title r) \<or> has_token tk tok (n_content r)"

section \<open>Properties of the tag normalizer\<close>

lemma py_split_nonempty: "py_split sep s \<noteq> []"
  by (induction s) (auto split: list.splits)

lemma split_after_replace:
  "py_split b (py_replace a b s) = split_where (\<lambda>c. c = b \<or> c = a) s"
  by (induction s) (auto simp: py_replace_def split: list.splits)

lemma set_dedup_first [simp]: "set (dedup_first xs) = set xs"
  by (induction xs rule: dedup_first.induct) auto

lemma distinct_dedup_first [simp]: "distinct (dedup_first xs)"
  by (induction xs rule: dedup_first.induct) auto

lemma removeAll_filter_conv: "removeAll x (filter P xs) = filter (\<lambda>y. P y \<and> y \<noteq> x) xs"
  by (induction xs) auto

lemma parse_tags_loop_Cons:
  "parse_tags_loop (t # ts) seen d =
     (if t = [] then parse_tags_loop ts seen d
      else if take 32 t \<notin> seen then parse_tags_loop ts (insert (take 32 t) seen) (d @ [take 32 t])
      else parse_tags_loop ts seen d)"
  by (simp add: Let_def)

lemma parse_tags_loop_spec:
  "parse_tags_loop items (set d) d =
     d @ dedup_first (filter (\<lambda>t. t \<notin> set d) (filter (\<lambda>t. t \<noteq> []) (map (take 32) items)))"
proof (induction items arbitrary: d)
  case Nil
  show ?case by simp
next
  case (Cons t ts)
  show ?case
  proof (cases "t = []")
    case True
    with Cons.IH [of d] show ?thesis by simp
  next
    case False
    let ?t = "take 32 t"
    have ne: "?t \<noteq> []" using False by simp
    show ?thesis
    proof (cases "?t \<in> set d")
      case True
      with False ne Cons.IH [of d] show ?thesis by (simp only: parse_tags_loop_Cons) simp
    next
      case notin: False
      have "parse_tags_loop (t # ts) (set d) d = parse_tags_loop ts (set (d @ [?t])) (d @ [?t])"
        using False notin by (simp only: parse_tags_loop_Cons) simp
      also have "\<dots> = (d @ [?t]) @ dedup_first (filter (\<lambda>x. x \<notin> set (d @ [?t]))
                    (filter (\<lambda>x. x \<noteq> []) (map (take 32) ts)))"
        by (rule Cons.IH)
      finally show ?thesis
        using False ne notin by (simp add: removeAll_filter_conv conj_commute)
    qed
  qed
qed

lemma parse_tags_refines:
  assumes "raw \<noteq> [] \<or> lower [] = []"
  shows "parse_tags lower raw = normalize_tags_spec lower raw"
proof (cases "raw = []")
  case True
  then show ?thesis
    using assms by (simp add: parse_tags_def normalize_tags_spec_def py_strip_def)
next
  case False
  have "parse_tags lower raw =
          parse_tags_loop (map (\<lambda>t. lower (py_strip t))
             (split_where (\<lambda>c. c = COMMA \<or> c = FULLWIDTH_COMMA) raw)) (set []) []"
    using False by (simp add: parse_tags_def split_after_replace)
  then show ?thesis
    by (simp only: parse_tags_loop_spec normalize_tags_spec_def) (simp add: comp_def)
qed

lemma parse_tags_entries:
  assumes "t \<in> set (parse_tags lower raw)"
  shows "t \<noteq> [] \<and> length t \<le> 32 \<and> (\<exists>x. t = take 32 (lower x))"
proof -
  have "raw \<noteq> []" using assms by (auto simp: parse_tags_def)
  then have "parse_tags lower raw = normalize_tags_spec lower raw"
    by (simp add: parse_tags_refines)
  with assms obtain x where "t = take 32 (lower (py_strip x))" and "t \<noteq> []"
    by (auto simp: normalize_tags_spec_def)
  then show ?thesis by auto
qed

lemma parse_tags_distinct: "distinct (parse_tags lower raw)"
proof (cases "raw = []")
  case True
  then show ?thesis by (simp add: parse_tags_def)
next
  case False
  then show ?thesis by (simp add: parse_tags_refines normalize_tags_spec_def)
qed

lemma split_where_nonempty: "split_where P s \<noteq> []"
  by (induction s) (auto split: list.splits)

lemma parse_tags_lowercase:
  assumes "unicode_lower lower" and "t \<in> set (parse_tags lower raw)"
  shows "is_lower lower t"
proof -
  from parse_tags_entries [OF assms(2)] obtain x where "t = take 32 (lower x)" by blast
  moreover have "lower (take 32 (lower x)) = take 32 (lower x)"
    using assms(1) by (simp add: unicode_lower_def)
  ultimately show ?thesis by (simp add: is_lower_def)
qed

lemma split_where_pieces: "p \<in> set (split_where P s) \<Longrightarrow> set p \<subseteq> set s"
proof (induction s arbitrary: p)
  case Nil
  then show ?case by simp
next
  case (Cons c cs)
  show ?case
  proof (cases "P c")
    case True
    with Cons show ?thesis by auto
  next
    case False
    obtain q qs where q: "split_where P cs = q # qs"
      using split_where_nonempty [of P cs] by (cases "split_where P cs") auto
    with False Cons.prems have "p = c # q \<or> p \<in> set qs" by simp
    then show ?thesis
    proof
      assume "p = c # q"
      moreover have "set q \<subseteq> set cs" using Cons.IH [of q] q by simp
      ultimately show ?thesis by auto
    next
      assume "p \<in> set qs"
      then have "set p \<subseteq> set cs" using Cons.IH [of p] q by simp
      then show ?thesis by auto
    qed
  qed
qed

lemma set_py_strip: "set (py_strip t) \<subseteq> set t"
proof -
  have "set (dropWhile py_isspace (rev (dropWhile py_isspace t))) \<subseteq> set (rev (dropWhile py_isspace t))"
    by (rule set_dropWhileD [THEN subsetI]) 
  also have "\<dots> \<subseteq> set t"
    by (auto dest: set_dropWhileD)
  finally show ?thesis by (simp add: py_strip_def)
qed

lemma parse_tags_ascii:
  assumes "unicode_lower lower" and "\<forall>c \<in> set raw. c < 128"
  shows "parse_tags lower raw = parse_tags ascii_lower raw"
proof -
  have low: "lower t = ascii_lower t" if "\<forall>c \<in> set t. c < 128" for t
    using assms(1) that by (simp add: unicode_lower_def ascii_lower_def)
  have "lower (py_strip p) = ascii_lower (py_strip p)"
    if "p \<in> set (split_where (\<lambda>c. c = COMMA \<or> c = FULLWIDTH_COMMA) raw)" for p
  proof -
    have "set (py_strip p) \<subseteq> set raw"
      using split_where_pieces [OF that] set_py_strip [of p] by blast
    then show ?thesis using assms(2) by (intro low) blast
  qed
  then have "map (\<lambda>t. take 32 (lower (py_strip t))) (split_where (\<lambda>c. c = COMMA \<or> c = FULLWIDTH_COMMA) raw)
      = map (\<lambda>t. take 32 (ascii_lower (py_strip t))) (split_where (\<lambda>c. c = COMMA \<or> c = FULLWIDTH_COMMA) raw)"
    by (intro map_cong) simp_all
  then have "normalize_tags_spec lower raw = normalize_tags_spec ascii_lower raw"
    by (simp only: normalize_tags_spec_def)
  moreover have "lower [] = []" "ascii_lower [] = []"
    using low [of "[]"] by (simp_all add: ascii_lower_def)
  ultimately show ?thesis
    by (simp add: parse_tags_refines)
qed

lemma lower_cp_idem: "lower_cp (lower_cp c) = lower_cp c"
  by (simp add: lower_cp_def)

lemma unicode_lower_ascii: "unicode_lower ascii_lower"
  by (simp add: unicode_lower_def ascii_lower_def take_map [symmetric] lower_cp_idem comp_def)

lemma parse_tags_study_example:
  "parse_tags ascii_lower (u ''Study, Demo, study'') = [u ''study'', u ''demo'']"
  by (simp add: parse_tags_def u_def COMMA_def FULLWIDTH_COMMA_def py_replace_def
      ascii_lower_def lower_cp_def py_strip_def py_isspace_def Let_def)

text \<open>
  Claim C4. For every input string, \<open>parse_tags\<close> returns a list (it has no failing
  branch), and with a case mapping that lowers the empty string to itself the list is that
  of the specification's pipeline: split on the ASCII and the full-width comma, trim,
  lowercase, truncate to 32 code points, drop the empty tokens, keep first occurrences in
  order. The result has no duplicates, every entry is non-empty and at most 32 code points
  long, and the empty input gives the empty list. With the case mapping of \<^verbatim>\<open>str.lower\<close>
  every entry is lowercase, and \<^verbatim>\<open>"Study, Demo, study"\<close> gives \<^verbatim>\<open>["study", "demo"]\<close>.
\<close>

theorem parse_tags_normalizes:
  "(lower [] = [] \<longrightarrow> parse_tags lower raw = normalize_tags_spec lower raw)
   \<and> distinct (parse_tags lower raw)
   \<and> (\<forall>t \<in> set (parse_tags lower raw). t \<noteq> [] \<and> length t \<le> 32)
   \<and> (unicode_lower lower \<longrightarrow> (\<forall>t \<in> set (parse_tags lower raw). is_lower lower t))
   \<and> parse_tags lower [] = []
   \<and> (unicode_lower lower \<longrightarrow>
        parse_tags lower (u ''Study, Demo, study'') = [u ''study'', u ''demo''])"
proof -
  have "distinct (parse_tags lower raw)"
    by (rule parse_tags_distinct)
  moreover have "parse_tags lower [] = []"
    by (simp add: parse_tags_def)
  moreover have "parse_tags lower (u ''Study, Demo, study'') = [u ''study'', u ''demo'']"
    if "unicode_lower lower"
  proof -
    have "\<forall>c \<in> set (u ''Study, Demo, study''). c < 128" by (simp add: u_def)
    with that show ?thesis by (simp only: parse_tags_ascii parse_tags_study_example)
  qed
  ultimately show ?thesis
    using parse_tags_refines [of raw lower] parse_tags_entries [of _ lower raw]
      parse_tags_lowercase [of lower _ raw]
    by blast
qed

theorem parse_tags_normalizes_witness:
  "unicode_lower ascii_lower
   \<and> parse_tags ascii_lower (u ''B, a '' @ [FULLWIDTH_COMMA] @ u '' b,,'') = [u ''b'', u ''a'']
   \<and> distinct (parse_tags ascii_lower (u ''B, a '' @ [FULLWIDTH_COMMA] @ u '' b,,''))
   \<and> is_lower ascii_lower (u ''b'') \<and> length (u ''b'') \<le> 32
   \<and> is_lower ascii_lower (u ''a'') \<and> length (u ''a'') \<le> 32
   \<and> parse_tags ascii_lower (u ''Study, Demo, study'') = [u ''study'', u ''demo'']"
proof -
  let ?raw = "u ''B, a '' @ [FULLWIDTH_COMMA] @ u '' b,,''"
  have ev: "parse_tags ascii_lower ?raw = [u ''b'', u ''a'']"
    by (simp add: parse_tags_def u_def COMMA_def FULLWIDTH_COMMA_def py_replace_def
        ascii_lower_def lower_cp_def py_strip_def py_isspace_def Let_def)
  from parse_tags_normalizes [of ascii_lower ?raw] unicode_lower_ascii
  have "distinct (parse_tags ascii_lower ?raw)"
    and "\<forall>t \<in> set (parse_tags ascii_lower ?raw). t \<noteq> [] \<and> length t \<le> 32"
    and "\<forall>t \<in> set (parse_tags ascii_lower ?raw). is_lower ascii_lower t"
    and "parse_tags ascii_lower (u ''Study, Demo, study'') = [u ''study'', u ''demo'']"
    by blast+
  then show ?thesis
    using unicode_lower_ascii unfolding ev by simp
qed

section \<open>Invariants of the reachable states\<close>
lemma fold_max_ge: "seq \<le> fold max ids (seq::int)"
  by (induction ids arbitrary: seq) (auto intro: order_trans [OF max.cobounded2])

lemma fold_max_mem: "i \<in> set ids \<Longrightarrow> i \<le> fold max ids (seq::int)"
proof (induction ids arbitrary: seq)
  case Nil
  then show ?case by simp
next
  case (Cons a ids)
  then show ?case
    using fold_max_ge [of "max a seq" ids] by auto
qed

lemma next_rowid_fresh: "next_rowid seq ids \<notin> set ids"
  using fold_max_mem [of "next_rowid seq ids" ids seq] by (auto simp: next_rowid_def)

lemma fold_max_bounded: "\<forall>i \<in> set ids. i \<le> seq \<Longrightarrow> fold max ids (seq::int) = seq"
  by (induction ids arbitrary: seq) (auto simp: max_def)

lemma next_rowid_bounded: "\<forall>i \<in> set ids. i \<le> seq \<Longrightarrow> next_rowid seq ids = seq + 1"
  by (simp add: next_rowid_def fold_max_bounded)

lemma next_rowid_notes: "wf_db s \<Longrightarrow> next_rowid (notes_seq s) (map n_id (notes s)) = notes_seq s + 1"
  by (rule next_rowid_bounded) (simp add: wf_db_def)

lemma next_rowid_tags: "wf_db s \<Longrightarrow> next_rowid (tags_seq s) (map fst (tags s)) = tags_seq s + 1"
  by (rule next_rowid_bounded) (simp add: wf_db_def)

lemma wf_init: "wf_db init_db"
  by (simp add: wf_db_def init_db_def INT64_MAX_def)

lemma wf_insert_note:
  assumes "wf_db s" and "p = 0 \<or> p = 1"
  shows "wf_db (fst (insert_note s t c p cr up))"
proof (cases "notes_seq s + 1 > INT64_MAX")
  case True
  then show ?thesis
    using assms(1) by (simp add: insert_note_def Let_def next_rowid_notes)
next
  case False
  have fresh: "notes_seq s + 1 \<notin> n_id ` set (notes s)"
    using assms(1) by (force simp: wf_db_def)
  have old: "\<forall>r \<in> set (notes s). 0 < n_id r \<and> n_id r \<le> notes_seq s + 1"
    using assms(1) by (force simp: wf_db_def)
  show ?thesis
    using False assms fresh old
    by (simp add: insert_note_def Let_def next_rowid_notes notes_ai_def fts_insert_def)
       (simp add: wf_db_def fts_entry_def)
qed

lemma wf_insert_or_ignore_tag:
  assumes "wf_db s"
  shows "wf_db (fst (insert_or_ignore_tag s name))"
proof (cases "tags_seq s + 1 > INT64_MAX")
  case True
  then show ?thesis
    using assms by (simp add: insert_or_ignore_tag_def Let_def next_rowid_tags)
next
  case False
  have fresh: "tags_seq s + 1 \<notin> fst ` set (tags s)"
    using assms by (force simp: wf_db_def)
  have old: "\<forall>t \<in> set (tags s). 0 < fst t \<and> fst t \<le> tags_seq s + 1"
    using assms by (force simp: wf_db_def)
  show ?thesis
    using False assms fresh old
    by (simp add: insert_or_ignore_tag_def Let_def next_rowid_tags)
       (auto simp: wf_db_def)
qed

lemma wf_insert_or_ignore_note_tag:
  "wf_db s \<Longrightarrow> wf_db (fst (insert_or_ignore_note_tag s n t))"
  by (auto simp: wf_db_def insert_or_ignore_note_tag_def)

lemma wf_ensure_tag: "wf_db s \<Longrightarrow> wf_db (fst (ensure_tag s name))"
  using wf_insert_or_ignore_tag [of s name]
  by (auto simp: ensure_tag_def split: option.splits prod.splits sum.splits)

lemma wf_set_note_tags_loop: "wf_db s \<Longrightarrow> wf_db (fst (set_note_tags_loop s n names))"
proof (induction names arbitrary: s)
  case Nil
  then show ?case by simp
next
  case (Cons name names)
  obtain s1 r1 where e: "ensure_tag s name = (s1, r1)" by (cases "ensure_tag s name")
  have w1: "wf_db s1" using wf_ensure_tag [OF Cons.prems, of name] e by simp
  show ?case
  proof (cases r1)
    case (Inl err)
    with e w1 show ?thesis by simp
  next
    case (Inr tid)
    show ?thesis
    proof (cases "bind_parameters [PInt n, PInt tid]")
      case (Some err)
      with e Inr w1 show ?thesis by simp
    next
      case None
      obtain s2 r2 where i: "insert_or_ignore_note_tag s1 n tid = (s2, r2)"
        by (cases "insert_or_ignore_note_tag s1 n tid")
      have w2: "wf_db s2" using wf_insert_or_ignore_note_tag [OF w1, of n tid] i by simp
      show ?thesis
        using e Inr None i w2 Cons.IH [OF w2] by (cases r2) simp_all
    qed
  qed
qed

lemma wf_clear_note_tags:
  "wf_db s \<Longrightarrow> wf_db (s\<lparr>note_tags := filter P (note_tags s)\<rparr>)"
  by (auto simp: wf_db_def)

lemma wf_set_note_tags: "wf_db s \<Longrightarrow> wf_db (fst (set_note_tags s n names))"
  by (simp add: set_note_tags_def wf_set_note_tags_loop wf_clear_note_tags split: option.splits)

lemma filter_id_absent:
  "i \<notin> n_id ` set xs \<Longrightarrow> filter (\<lambda>r. n_id r = i) xs = []"
  by (induction xs) auto

lemma map_id_absent:
  "i \<notin> n_id ` set xs \<Longrightarrow> map (\<lambda>r. if n_id r = i then f r else r) xs = xs"
  by (induction xs) auto

lemma filter_neq_absent:
  "i \<notin> n_id ` set xs \<Longrightarrow> filter (\<lambda>r. n_id r \<noteq> i) xs = xs"
  by (induction xs) auto

lemma filter_id_present:
  "distinct (map n_id xs) \<Longrightarrow> r \<in> set xs \<Longrightarrow> filter (\<lambda>x. n_id x = n_id r) xs = [r]"
  by (induction xs) (auto simp: filter_id_absent)

lemma mset_map_update_present:
  "distinct (map n_id xs) \<Longrightarrow> r \<in> set xs \<Longrightarrow>
     mset (map g (map (\<lambda>x. if n_id x = n_id r then f x else x) xs))
       = mset (map g xs) - {#g r#} + {#g (f r)#}"
proof (induction xs)
  case Nil
  then show ?case by simp
next
  case (Cons a xs)
  show ?case
  proof (cases "a = r")
    case True
    then have "n_id r \<notin> n_id ` set xs" using Cons.prems by auto
    then show ?thesis using True by (simp add: map_id_absent)
  next
    case False
    then have "r \<in> set xs" and "n_id a \<noteq> n_id r" using Cons.prems by auto
    then show ?thesis using Cons by auto
  qed
qed

lemma mset_map_filter_present:
  "distinct (map n_id xs) \<Longrightarrow> r \<in> set xs \<Longrightarrow>
     mset (map g (filter (\<lambda>x. n_id x \<noteq> n_id r) xs)) = mset (map g xs) - {#g r#}"
proof (induction xs)
  case Nil
  then show ?case by simp
next
  case (Cons a xs)
  show ?case
  proof (cases "a = r")
    case True
    then have "n_id r \<notin> n_id ` set xs" using Cons.prems by auto
    then show ?thesis using True by (simp add: filter_neq_absent)
  next
    case False
    then have "r \<in> set xs" and "n_id a \<noteq> n_id r" using Cons.prems by auto
    then show ?thesis using Cons by auto
  qed
qed

lemma update_notes_absent:
  "i \<notin> n_id ` set (notes s) \<Longrightarrow> update_notes f i s = s"
  by (simp add: update_notes_def filter_id_absent map_id_absent)

lemma update_notes_present:
  assumes "distinct (map n_id (notes s))" and "r \<in> set (notes s)"
  shows "update_notes f (n_id r) s =
           s\<lparr>notes := map (\<lambda>x. if n_id x = n_id r then f x else x) (notes s),
             notes_fts := remove1 (fts_entry r) (notes_fts s) @ [fts_entry (f r)]\<rparr>"
  using assms
  by (simp add: update_notes_def filter_id_present notes_au_def fts_insert_def fts_delete_def)

lemma delete_notes_absent:
  "i \<notin> n_id ` set (notes s) \<Longrightarrow> delete_notes i s = s"
  by (simp add: delete_notes_def filter_id_absent filter_neq_absent)

lemma delete_notes_present:
  assumes "distinct (map n_id (notes s))" and "r \<in> set (notes s)"
  shows "delete_notes (n_id r) s =
           s\<lparr>notes := filter (\<lambda>x. n_id x \<noteq> n_id r) (notes s),
             note_tags := filter (\<lambda>nt. fst nt \<noteq> n_id r) (note_tags s),
             notes_fts := remove1 (fts_entry r) (notes_fts s)\<rparr>"
  using assms
  by (simp add: delete_notes_def filter_id_present notes_ad_def fts_delete_def)

lemma wf_update_notes:
  assumes "wf_db s"
    and "\<And>r. n_id (f r) = n_id r"
    and "\<And>r. n_pinned r = 0 \<or> n_pinned r = 1 \<Longrightarrow> n_pinned (f r) = 0 \<or> n_pinned (f r) = 1"
  shows "wf_db (update_notes f i s)"
proof (cases "i \<in> n_id ` set (notes s)")
  case False
  then show ?thesis using assms(1) by (simp add: update_notes_absent)
next
  case True
  then obtain r where r: "r \<in> set (notes s)" "n_id r = i" by auto
  let ?rows = "map (\<lambda>x. if n_id x = n_id r then f x else x) (notes s)"
  have d: "distinct (map n_id (notes s))" using assms(1) by (simp add: wf_db_def)
  have ids: "map n_id ?rows = map n_id (notes s)"
    by (simp add: assms(2) comp_def if_distrib cong: if_cong)
  have "fts_entry r \<in># mset (notes_fts s)"
    using assms(1) r by (simp add: wf_db_def)
  then have fts: "mset (remove1 (fts_entry r) (notes_fts s) @ [fts_entry (f r)])
      = mset (map fts_entry ?rows)"
    using assms(1) mset_map_update_present [OF d r(1), of fts_entry f]
    by (simp add: wf_db_def)
  have img: "n_id ` set ?rows = n_id ` set (notes s)"
    using ids by (metis list.set_map)
  have pin0: "\<forall>x \<in> set (notes s). n_pinned x = 0 \<or> n_pinned x = 1"
    using assms(1) by (simp add: wf_db_def)
  have pin: "\<forall>x \<in> set ?rows. n_pinned x = 0 \<or> n_pinned x = 1"
  proof
    fix x assume "x \<in> set ?rows"
    then obtain y where y: "y \<in> set (notes s)" "x = (if n_id y = n_id r then f y else y)"
      by auto
    from pin0 y(1) have py: "n_pinned y = 0 \<or> n_pinned y = 1" by blast
    show "n_pinned x = 0 \<or> n_pinned x = 1"
      using py assms(3) [OF py] y(2) by (cases "n_id y = n_id r") simp_all
  qed
  have rng: "\<forall>x \<in> set ?rows. 0 < n_id x \<and> n_id x \<le> notes_seq s"
    using assms(1,2) by (auto simp: wf_db_def)
  show ?thesis
    unfolding r(2) [symmetric] update_notes_present [OF d r(1)]
    using assms(1) fts ids img pin rng
    by (simp add: wf_db_def del: mset_map mset_append set_map map_map)
qed

lemma wf_delete_notes:
  assumes "wf_db s"
  shows "wf_db (delete_notes i s)"
proof (cases "i \<in> n_id ` set (notes s)")
  case False
  then show ?thesis using assms by (simp add: delete_notes_absent)
next
  case True
  then obtain r where r: "r \<in> set (notes s)" "n_id r = i" by auto
  have d: "distinct (map n_id (notes s))" using assms by (simp add: wf_db_def)
  have fts: "mset (remove1 (fts_entry r) (notes_fts s))
      = mset (map fts_entry (filter (\<lambda>x. n_id x \<noteq> n_id r) (notes s)))"
    using assms mset_map_filter_present [OF d r(1), of fts_entry]
    by (simp add: wf_db_def)
  show ?thesis
    unfolding r(2) [symmetric] delete_notes_present [OF d r(1)]
    using assms fts
    by (auto simp: wf_db_def distinct_map_filter simp del: mset_map)
qed

lemma wf_create_note: "wf_db s \<Longrightarrow> wf_db (fst (create_note s title content tgs now))"
proof -
  assume w: "wf_db s"
  let ?ins = "insert_note s (py_or (py_strip title) (u ''Untitled'')) (py_or content []) 0 now now"
  obtain s1 r1 where ins: "?ins = (s1, r1)" by (cases ?ins)
  have w1: "wf_db s1" using wf_insert_note [OF w, of 0] ins by (metis fst_conv)
  show ?thesis
  proof (cases r1)
    case (Inl e)
    with w w1 ins show ?thesis by (simp add: create_note_def split: option.splits)
  next
    case (Inr i)
    have "wf_db (fst (set_note_tags s1 i tgs))" using w1 by (rule wf_set_note_tags)
    with w ins Inr show ?thesis
      by (auto simp: create_note_def split: option.splits prod.splits sum.splits)
  qed
qed

lemma wf_update_note: "wf_db s \<Longrightarrow> wf_db (fst (update_note s i title content tgs now))"
  by (simp add: update_note_def wf_set_note_tags wf_update_notes split: option.splits)

lemma wf_delete_note: "wf_db s \<Longrightarrow> wf_db (fst (delete_note s i))"
  by (simp add: delete_note_def wf_delete_notes split: option.splits)

lemma wf_toggle_pin: "wf_db s \<Longrightarrow> wf_db (fst (toggle_pin s i now))"
proof -
  assume w: "wf_db s"
  have w1: "wf_db (update_notes (\<lambda>r. r\<lparr>n_pinned := (if n_pinned r = 1 then 0 else 1)\<rparr>) i s)"
    by (rule wf_update_notes [OF w]) auto
  then have "wf_db (update_notes (\<lambda>r. r\<lparr>n_updated_at := now\<rparr>) i
        (update_notes (\<lambda>r. r\<lparr>n_pinned := (if n_pinned r = 1 then 0 else 1)\<rparr>) i s))"
    by (rule wf_update_notes) auto
  with w w1 show ?thesis
    by (simp add: toggle_pin_def Let_def split: option.splits)
qed

lemma wf_run_op: "wf_db s \<Longrightarrow> wf_db (fst (run_op s opn))"
proof (cases opn)
  case (CreateNote title content tgs now)
  assume "wf_db s"
  then have "wf_db (fst (create_note s title content tgs now))" by (rule wf_create_note)
  then show ?thesis
    using CreateNote by (auto split: prod.splits sum.splits)
next
  case (UpdateNote i title content tgs now)
  assume "wf_db s"
  then show ?thesis using UpdateNote by (simp add: wf_update_note)
next
  case (DeleteNote i)
  assume "wf_db s"
  then show ?thesis using DeleteNote by (simp add: wf_delete_note)
next
  case (TogglePin i now)
  assume "wf_db s"
  then show ?thesis using TogglePin by (simp add: wf_toggle_pin)
qed

lemma reachable_wf: "reachable s \<Longrightarrow> wf_db s"
  by (induction rule: reachable.induct) (simp_all add: wf_init wf_run_op)

subsection \<open>What each statement leaves alone\<close>

lemma fold_notes_au_frame:
  "notes (fold (\<lambda>old. notes_au old (f old)) olds s) = notes s \<and>
   tags (fold (\<lambda>old. notes_au old (f old)) olds s) = tags s \<and>
   note_tags (fold (\<lambda>old. notes_au old (f old)) olds s) = note_tags s \<and>
   notes_seq (fold (\<lambda>old. notes_au old (f old)) olds s) = notes_seq s \<and>
   tags_seq (fold (\<lambda>old. notes_au old (f old)) olds s) = tags_seq s"
  by (induction olds arbitrary: s) (simp_all add: notes_au_def fts_insert_def fts_delete_def)

lemma update_notes_frame [simp]:
  "tags (update_notes f i s) = tags s"
  "note_tags (update_notes f i s) = note_tags s"
  "notes (update_notes f i s) = map (\<lambda>r. if n_id r = i then f r else r) (notes s)"
  "notes_seq (update_notes f i s) = notes_seq s"
  "tags_seq (update_notes f i s) = tags_seq s"
  by (simp_all add: update_notes_def fold_notes_au_frame)

lemma fold_notes_ad_frame:
  "notes (fold (\<lambda>old s'. notes_ad old (s'\<lparr>note_tags := filter (\<lambda>nt. fst nt \<noteq> n_id old) (note_tags s')\<rparr>)) olds s) = notes s \<and>
   tags (fold (\<lambda>old s'. notes_ad old (s'\<lparr>note_tags := filter (\<lambda>nt. fst nt \<noteq> n_id old) (note_tags s')\<rparr>)) olds s) = tags s \<and>
   notes_seq (fold (\<lambda>old s'. notes_ad old (s'\<lparr>note_tags := filter (\<lambda>nt. fst nt \<noteq> n_id old) (note_tags s')\<rparr>)) olds s) = notes_seq s \<and>
   tags_seq (fold (\<lambda>old s'. notes_ad old (s'\<lparr>note_tags := filter (\<lambda>nt. fst nt \<noteq> n_id old) (note_tags s')\<rparr>)) olds s) = tags_seq s"
  by (induction olds arbitrary: s) (simp_all add: notes_ad_def fts_delete_def)

lemma delete_notes_frame [simp]:
  "tags (delete_notes i s) = tags s"
  "notes (delete_notes i s) = filter (\<lambda>r. n_id r \<noteq> i) (notes s)"
  "notes_seq (delete_notes i s) = notes_seq s"
  "tags_seq (delete_notes i s) = tags_seq s"
  by (simp_all add: delete_notes_def fold_notes_ad_frame)

lemma insert_note_frame [simp]:
  "tags (fst (insert_note s t c p cr up)) = tags s"
  "note_tags (fst (insert_note s t c p cr up)) = note_tags s"
  "tags_seq (fst (insert_note s t c p cr up)) = tags_seq s"
  by (simp_all add: insert_note_def Let_def notes_ai_def fts_insert_def)

lemma insert_or_ignore_tag_frame [simp]:
  "notes (fst (insert_or_ignore_tag s name)) = notes s"
  "note_tags (fst (insert_or_ignore_tag s name)) = note_tags s"
  "notes_fts (fst (insert_or_ignore_tag s name)) = notes_fts s"
  "notes_seq (fst (insert_or_ignore_tag s name)) = notes_seq s"
  by (simp_all add: insert_or_ignore_tag_def Let_def)

lemma insert_or_ignore_tag_tags:
  "\<exists>new. tags (fst (insert_or_ignore_tag s name)) = tags s @ new \<and> snd ` set new \<subseteq> {name}"
  by (simp add: insert_or_ignore_tag_def Let_def)

lemma ensure_tag_fst:
  "fst (ensure_tag s name) = s \<or> fst (ensure_tag s name) = fst (insert_or_ignore_tag s name)"
  by (auto simp: ensure_tag_def split: option.splits prod.splits sum.splits)

lemma ensure_tag_frame:
  "notes (fst (ensure_tag s name)) = notes s \<and>
   notes_fts (fst (ensure_tag s name)) = notes_fts s \<and>
   note_tags (fst (ensure_tag s name)) = note_tags s \<and>
   notes_seq (fst (ensure_tag s name)) = notes_seq s \<and>
   (\<exists>new. tags (fst (ensure_tag s name)) = tags s @ new \<and> snd ` set new \<subseteq> {name})"
  using ensure_tag_fst [of s name] insert_or_ignore_tag_tags [of s name] by auto

lemma find_Some_mem: "x \<in> set xs \<Longrightarrow> P x \<Longrightarrow> \<exists>y. find P xs = Some y \<and> y \<in> set xs \<and> P y"
  by (induction xs) auto

lemma insert_or_ignore_note_tag_frame [simp]:
  "notes (fst (insert_or_ignore_note_tag s n t)) = notes s"
  "tags (fst (insert_or_ignore_note_tag s n t)) = tags s"
  "notes_fts (fst (insert_or_ignore_note_tag s n t)) = notes_fts s"
  "notes_seq (fst (insert_or_ignore_note_tag s n t)) = notes_seq s"
  "tags_seq (fst (insert_or_ignore_note_tag s n t)) = tags_seq s"
  by (simp_all add: insert_or_ignore_note_tag_def)

lemma set_note_tags_loop_frame:
  "notes (fst (set_note_tags_loop s n names)) = notes s \<and>
   notes_fts (fst (set_note_tags_loop s n names)) = notes_fts s \<and>
   notes_seq (fst (set_note_tags_loop s n names)) = notes_seq s \<and>
   (\<exists>new. tags (fst (set_note_tags_loop s n names)) = tags s @ new \<and> snd ` set new \<subseteq> set names)"
proof (induction names arbitrary: s)
  case Nil
  show ?case by simp
next
  case (Cons name names)
  obtain s1 r1 where e: "ensure_tag s name = (s1, r1)" by (cases "ensure_tag s name")
  from ensure_tag_frame [of s name] e obtain new1 where
    s1: "notes s1 = notes s" "notes_fts s1 = notes_fts s" "notes_seq s1 = notes_seq s"
      "tags s1 = tags s @ new1" "snd ` set new1 \<subseteq> {name}"
    by auto
  show ?case
  proof (cases r1)
    case (Inl err)
    with e s1 show ?thesis by auto
  next
    case (Inr tid)
    show ?thesis
    proof (cases "bind_parameters [PInt n, PInt tid]")
      case (Some err)
      with e Inr s1 show ?thesis by auto
    next
      case None
      obtain s2 r2 where i: "insert_or_ignore_note_tag s1 n tid = (s2, r2)"
        by (cases "insert_or_ignore_note_tag s1 n tid")
      have s2: "notes s2 = notes s" "notes_fts s2 = notes_fts s" "notes_seq s2 = notes_seq s"
          "tags s2 = tags s1"
        using insert_or_ignore_note_tag_frame [of s1 n tid] i s1 by simp_all
      show ?thesis
      proof (cases r2)
        case (Inl err)
        then show ?thesis using e Inr None i s2 s1 by auto
      next
        case r2: (Inr v)
        from Cons.IH [of s2] obtain new2 where
          "notes (fst (set_note_tags_loop s2 n names)) = notes s2"
          "notes_fts (fst (set_note_tags_loop s2 n names)) = notes_fts s2"
          "notes_seq (fst (set_note_tags_loop s2 n names)) = notes_seq s2"
          "tags (fst (set_note_tags_loop s2 n names)) = tags s2 @ new2" "snd ` set new2 \<subseteq> set names"
          by blast
        then show ?thesis using e Inr None i r2 s2 s1 by auto
      qed
    qed
  qed
qed

lemma set_note_tags_frame:
  "notes (fst (set_note_tags s n names)) = notes s \<and>
   notes_fts (fst (set_note_tags s n names)) = notes_fts s \<and>
   notes_seq (fst (set_note_tags s n names)) = notes_seq s \<and>
   (\<exists>new. tags (fst (set_note_tags s n names)) = tags s @ new \<and> snd ` set new \<subseteq> set names)"
  using set_note_tags_loop_frame [of "s\<lparr>note_tags := filter (\<lambda>nt. fst nt \<noteq> n) (note_tags s)\<rparr>" n names]
  by (simp add: set_note_tags_def split: option.splits)

text \<open>An operation only appends to the tags table, and only names it was given.\<close>

lemma create_note_tags:
  "\<exists>new. tags (fst (create_note s title content tgs now)) = tags s @ new \<and> snd ` set new \<subseteq> set tgs"
proof -
  let ?ins = "insert_note s (py_or (py_strip title) (u ''Untitled'')) (py_or content []) 0 now now"
  obtain s1 r1 where ins: "?ins = (s1, r1)" by (cases ?ins)
  then have t1: "tags s1 = tags s" using insert_note_frame(1) by (metis fst_conv)
  show ?thesis
  proof (cases "bind_parameters [PText (py_or (py_strip title) (u ''Untitled'')),
                            PText (py_or content []), PText now, PText now]")
    case (Some e)
    then show ?thesis by (simp add: create_note_def)
  next
    case None
    show ?thesis
    proof (cases r1)
      case (Inl e)
      with None ins t1 show ?thesis by (simp add: create_note_def)
    next
      case (Inr i)
      have "fst (create_note s title content tgs now) = fst (set_note_tags s1 i tgs)"
        using None ins Inr by (simp add: create_note_def split: prod.splits sum.splits)
      with set_note_tags_frame [of s1 i tgs] t1 show ?thesis by simp
    qed
  qed
qed

lemma update_note_tags:
  "\<exists>new. tags (fst (update_note s i title content tgs now)) = tags s @ new \<and> snd ` set new \<subseteq> set tgs"
proof (cases "bind_parameters [PText (py_or (py_strip title) (u ''Untitled'')),
                            PText (py_or content []), PText now, PInt i]")
  case (Some e)
  then show ?thesis by (simp add: update_note_def)
next
  case None
  let ?s1 = "update_notes
               (\<lambda>r. r\<lparr>n_title := py_or (py_strip title) (u ''Untitled''),
                      n_content := py_or content [], n_updated_at := now\<rparr>) i s"
  have "fst (update_note s i title content tgs now) = fst (set_note_tags ?s1 i tgs)"
    using None by (simp add: update_note_def)
  with set_note_tags_frame [of ?s1 i tgs] show ?thesis by simp
qed

lemma delete_note_tags: "tags (fst (delete_note s i)) = tags s"
  by (simp add: delete_note_def split: option.splits)

lemma toggle_pin_tags: "tags (fst (toggle_pin s i now)) = tags s"
  by (simp add: toggle_pin_def Let_def split: option.splits)

lemma run_op_tags:
  "\<exists>new. tags (fst (run_op s opn)) = tags s @ new \<and>
     snd ` set new \<subseteq> (case opn of CreateNote _ _ tgs _ \<Rightarrow> set tgs
                          | UpdateNote _ _ _ tgs _ \<Rightarrow> set tgs | _ \<Rightarrow> {})"
proof (cases opn)
  case (CreateNote title content tgs now)
  have "fst (run_op s opn) = fst (create_note s title content tgs now)"
    using CreateNote by (simp split: prod.splits sum.splits)
  with create_note_tags [of s title content tgs now] CreateNote show ?thesis by simp
next
  case (UpdateNote i title content tgs now)
  with update_note_tags [of s i title content tgs now] show ?thesis by simp
next
  case (DeleteNote i)
  then show ?thesis by (simp add: delete_note_tags)
next
  case (TogglePin i now)
  then show ?thesis by (simp add: toggle_pin_tags)
qed

section \<open>The scoped connection\<close>

lemma connect_Inl: "snd (body s) = Inl e \<Longrightarrow> connect s body = (s, Inl e)"
  by (cases "body s") (simp add: connect_def)

lemma connect_Inr: "body s = (s1, Inr v) \<Longrightarrow> connect s body = (s1, Inr v)"
  by (simp add: connect_def)

lemma connect_error_cases:
  "connect s body = (s', Inl e) \<Longrightarrow> s' = s \<and> snd (body s) = Inl e"
  by (cases "body s") (auto simp: connect_def split: sum.splits)

lemma update_missing_example:
  "update_note init_db 1 (u ''t'') (u ''c'') [u ''x''] (u ''now'')
     = (init_db\<lparr>tags := [(1, u ''x'')], tags_seq := 1\<rparr>, Inl IntegrityError)"
  by (simp add: update_note_def update_notes_def init_db_def set_note_tags_def ensure_tag_def
      insert_or_ignore_tag_def insert_or_ignore_note_tag_def next_rowid_def Let_def
      u_def py_or_def py_strip_def py_isspace_def utf8_encodable_def int64_def INT64_MAX_def)

text \<open>
  Claim C6. Inside the scoped connection, when the body raises, the caller gets that
  exception and the database is the one at entry: nothing the body wrote survives. This
  holds for any body, so for a failure at any step of any repository operation. When the
  body returns, its state is committed. In particular the tag row that \<open>update_note\<close>
  inserts before its association fails on the foreign key is rolled back.
\<close>

theorem connect_rolls_back:
  "(snd (body s) = Inl e \<longrightarrow> connect s body = (s, Inl e))
   \<and> (connect s body = (s', Inl e) \<longrightarrow> s' = s \<and> snd (body s) = Inl e)
   \<and> (snd (run_op s opn) = Inl e \<longrightarrow> connect s (\<lambda>c. run_op c opn) = (s, Inl e))
   \<and> (body s = (s1, Inr v) \<longrightarrow> connect s body = (s1, Inr v))
   \<and> tags (fst (update_note init_db 1 (u ''t'') (u ''c'') [u ''x''] (u ''now''))) = [(1, u ''x'')]
   \<and> connect init_db (\<lambda>c. update_note c 1 (u ''t'') (u ''c'') [u ''x''] (u ''now''))
         = (init_db, Inl IntegrityError)"
  using connect_Inl [of body s e] connect_error_cases [of s body s' e]
    connect_Inl [of "\<lambda>c. run_op c opn" s e] connect_Inr [of body s s1 v]
    connect_Inl [of "\<lambda>c. update_note c 1 (u ''t'') (u ''c'') [u ''x''] (u ''now'')" init_db IntegrityError]
  by (simp add: update_missing_example)

theorem connect_rolls_back_witness:
  "snd (run_op init_db (UpdateNote 1 (u ''t'') (u ''c'') [u ''x''] (u ''now''))) = Inl IntegrityError
   \<and> tags (fst (run_op init_db (UpdateNote 1 (u ''t'') (u ''c'') [u ''x''] (u ''now'')))) = [(1, u ''x'')]
   \<and> connect init_db (\<lambda>c. run_op c (UpdateNote 1 (u ''t'') (u ''c'') [u ''x''] (u ''now'')))
        = (init_db, Inl IntegrityError)"
proof -
  have raised: "snd (run_op init_db (UpdateNote 1 (u ''t'') (u ''c'') [u ''x''] (u ''now''))) = Inl IntegrityError"
    by (simp add: update_missing_example)
  have partial: "tags (fst (run_op init_db (UpdateNote 1 (u ''t'') (u ''c'') [u ''x''] (u ''now'')))) = [(1, u ''x'')]"
    by (simp add: update_missing_example)
  from connect_rolls_back [of "\<lambda>c. run_op c (UpdateNote 1 (u ''t'') (u ''c'') [u ''x''] (u ''now''))"
      init_db IntegrityError init_db "UpdateNote 1 (u ''t'') (u ''c'') [u ''x''] (u ''now'')"] raised
  have "connect init_db (\<lambda>c. run_op c (UpdateNote 1 (u ''t'') (u ''c'') [u ''x''] (u ''now'')))
        = (init_db, Inl IntegrityError)"
    by blast
  with raised partial show ?thesis by blast
qed

section \<open>Tags are never removed\<close>

lemma filter_note_tags_absent:
  assumes "wf_db s" and "i \<notin> n_id ` set (notes s)"
  shows "filter (\<lambda>nt. fst nt \<noteq> i) (note_tags s) = note_tags s"
  using assms by (auto simp: wf_db_def filter_id_conv)

lemma no_association_absent:
  assumes "wf_db s" and "i \<notin> n_id ` set (notes s)"
  shows "(i, t) \<notin> set (note_tags s)"
  using assms by (force simp: wf_db_def)

lemma note_tags_delete_notes:
  assumes "wf_db s"
  shows "note_tags (delete_notes i s) = filter (\<lambda>nt. fst nt \<noteq> i) (note_tags s)"
proof (cases "i \<in> n_id ` set (notes s)")
  case False
  with assms show ?thesis by (simp add: delete_notes_absent filter_note_tags_absent)
next
  case True
  then obtain r where r: "r \<in> set (notes s)" "n_id r = i" by auto
  have d: "distinct (map n_id (notes s))" using assms by (simp add: wf_db_def)
  show ?thesis
    unfolding r(2) [symmetric] delete_notes_present [OF d r(1)] by simp
qed

lemma set_list_tags:
  "set (list_tags s) = (\<lambda>t. (snd t, length (filter (\<lambda>nt. snd nt = fst t) (note_tags s)))) ` set (tags s)"
  by (simp add: list_tags_def)

lemma list_tags_sorted:
  "sorted_wrt (\<lambda>a b. snd a > snd b \<or> (snd a = snd b \<and> fst a \<le> fst b)) (list_tags s)"
proof -
  have "sorted (map (\<lambda>(name, cnt). (- int cnt, name)) (list_tags s))"
    unfolding list_tags_def by (rule sorted_sort_key)
  then have "sorted_wrt (\<lambda>a b. (- int (snd a), fst a) \<le> (- int (snd b), fst b)) (list_tags s)"
    by (simp add: sorted_map case_prod_beta)
  then show ?thesis
    by (rule sorted_wrt_mono_rel [rotated]) (auto simp: less_eq_prod_def)
qed

lemma wf_note_id_int64:
  assumes "wf_db s" and "i \<in> n_id ` set (notes s)"
  shows "int64 i"
  using assms by (auto simp: wf_db_def int64_def)

lemma orphan_tag_listed:
  assumes "wf_db s" and "(tid, name) \<in> set (tags s)"
    and "\<forall>nt \<in> set (note_tags s). snd nt = tid \<longrightarrow> fst nt = note_id"
  shows "(tid, name) \<in> set (tags (fst (delete_note s note_id)))
       \<and> (name, 0) \<in> set (list_tags (fst (delete_note s note_id)))"
proof (cases "int64 note_id")
  case True
  let ?s' = "delete_notes note_id s"
  let ?row = "\<lambda>t. (snd t, length (filter (\<lambda>nt. snd nt = fst t) (note_tags ?s')))"
  have none: "filter (\<lambda>nt. snd nt = tid) (note_tags ?s') = []"
    using assms(3) by (auto simp: note_tags_delete_notes [OF assms(1)] filter_empty_conv)
  have kept: "(tid, name) \<in> set (tags ?s')"
    using assms(2) by simp
  then have "?row (tid, name) \<in> ?row ` set (tags ?s')"
    by (rule imageI)
  then have "(name, 0) \<in> set (list_tags ?s')"
    unfolding set_list_tags using none by simp
  with kept True show ?thesis by (simp add: delete_note_def)
next
  case False
  let ?row = "\<lambda>t. (snd t, length (filter (\<lambda>nt. snd nt = fst t) (note_tags s)))"
  have absent: "note_id \<notin> n_id ` set (notes s)"
    using wf_note_id_int64 [OF assms(1)] False by blast
  have "\<forall>nt \<in> set (note_tags s). snd nt \<noteq> tid"
  proof
    fix nt assume nt: "nt \<in> set (note_tags s)"
    then have "fst nt \<in> n_id ` set (notes s)" using assms(1) by (simp add: wf_db_def)
    with absent have "fst nt \<noteq> note_id" by blast
    with assms(3) nt show "snd nt \<noteq> tid" by blast
  qed
  then have none: "filter (\<lambda>nt. snd nt = tid) (note_tags s) = []"
    by (simp add: filter_empty_conv)
  have "?row (tid, name) \<in> ?row ` set (tags s)"
    using assms(2) by (rule imageI)
  then have "(name, 0) \<in> set (list_tags s)"
    unfolding set_list_tags using none by simp
  with assms(2) False show ?thesis by (simp add: delete_note_def)
qed

text \<open>
  Claim C9. No repository operation removes a row of the tags table: the table after an
  operation is the table before it, followed by the rows the operation added. When the
  only note referencing a tag is deleted, the tag's row is still there and \<open>list_tags\<close>
  lists it with count 0. The result of \<open>list_tags\<close> is in the order of descending count,
  and of ascending name among equal counts.
\<close>

theorem tags_persist:
  "(\<exists>new. tags (fst (run_op s opn)) = tags s @ new)
   \<and> (reachable s \<longrightarrow> (tid, name) \<in> set (tags s) \<longrightarrow>
        (\<forall>nt \<in> set (note_tags s). snd nt = tid \<longrightarrow> fst nt = note_id) \<longrightarrow>
          (tid, name) \<in> set (tags (fst (delete_note s note_id)))
          \<and> (name, 0) \<in> set (list_tags (fst (delete_note s note_id))))
   \<and> sorted_wrt (\<lambda>a b. snd a > snd b \<or> (snd a = snd b \<and> fst a \<le> fst b)) (list_tags s)"
proof -
  have "\<exists>new. tags (fst (run_op s opn)) = tags s @ new"
    using run_op_tags [of s opn] by blast
  then show ?thesis
    using orphan_tag_listed [of s tid name note_id] reachable_wf [of s] list_tags_sorted [of s]
    by blast
qed

lemma create_tagged_example:
  "fst (run_op init_db (CreateNote (u ''t'') (u ''c'') [u ''x''] (u ''now''))) =
     \<lparr>notes = [\<lparr>n_id = 1, n_title = u ''t'', n_content = u ''c'', n_pinned = 0,
                 n_created_at = u ''now'', n_updated_at = u ''now''\<rparr>],
      notes_seq = 1, tags = [(1, u ''x'')], tags_seq = 1, note_tags = [(1, 1)],
      notes_fts = [(1, u ''t'', u ''c'')]\<rparr>"
  by (simp add: create_note_def insert_note_def init_db_def set_note_tags_def ensure_tag_def
      insert_or_ignore_tag_def insert_or_ignore_note_tag_def next_rowid_def Let_def
      notes_ai_def fts_insert_def fts_entry_def py_or_def py_strip_def py_isspace_def u_def
      utf8_encodable_def int64_def INT64_MAX_def)

theorem tags_persist_witness:
  "tags (fst (run_op init_db (CreateNote (u ''t'') (u ''c'') [u ''x''] (u ''now'')))) = [(1, u ''x'')]
   \<and> note_tags (fst (run_op init_db (CreateNote (u ''t'') (u ''c'') [u ''x''] (u ''now'')))) = [(1, 1)]
   \<and> (1, u ''x'') \<in> set (tags (fst (delete_note
         (fst (run_op init_db (CreateNote (u ''t'') (u ''c'') [u ''x''] (u ''now'')))) 1)))
   \<and> (u ''x'', 0) \<in> set (list_tags (fst (delete_note
         (fst (run_op init_db (CreateNote (u ''t'') (u ''c'') [u ''x''] (u ''now'')))) 1)))"
proof -
  define s where "s = fst (run_op init_db (CreateNote (u ''t'') (u ''c'') [u ''x''] (u ''now'')))"
  have r: "reachable s" unfolding s_def by (rule reachable_step [OF reachable_init])
  have t: "tags s = [(1, u ''x'')]"
    by (simp only: s_def create_tagged_example db.simps)
  have nt: "note_tags s = [(1, 1)]"
    by (simp only: s_def create_tagged_example db.simps)
  have m: "(1, u ''x'') \<in> set (tags s)"
    by (simp only: t list.set insertI1)
  have only: "\<forall>nt \<in> set (note_tags s). snd nt = 1 \<longrightarrow> fst nt = 1"
    by (simp add: nt)
  have "(1, u ''x'') \<in> set (tags (fst (delete_note s 1)))
          \<and> (u ''x'', 0) \<in> set (list_tags (fst (delete_note s 1)))"
    using tags_persist [of s _ 1 "u ''x''" 1] r m only by blast
  with t nt show ?thesis
    unfolding s_def [symmetric] by blast
qed

section \<open>Notes that are not there\<close>

lemma utf8_encodable_py_strip: "utf8_encodable t \<Longrightarrow> utf8_encodable (py_strip t)"
  using set_py_strip [of t] by (auto simp: utf8_encodable_def)

lemma utf8_encodable_title:
  "utf8_encodable t \<Longrightarrow> utf8_encodable (py_or (py_strip t) (u ''Untitled''))"
  using utf8_encodable_py_strip [of t]
  by (simp add: py_or_def) (simp add: utf8_encodable_def u_def)

lemma utf8_encodable_content: "utf8_encodable c \<Longrightarrow> utf8_encodable (py_or c [])"
  by (simp add: py_or_def)

lemma insert_or_ignore_tag_ok:
  assumes "wf_db s" and "tags_seq s < INT64_MAX"
  shows "snd (insert_or_ignore_tag s name) = Inr ()"
    and "name \<in> snd ` set (tags (fst (insert_or_ignore_tag s name)))"
    and "tags_seq (fst (insert_or_ignore_tag s name)) = tags_seq s + 1"
  using assms by (simp_all add: insert_or_ignore_tag_def Let_def next_rowid_tags)

lemma ensure_tag_ok:
  assumes "wf_db s" and "tags_seq s < INT64_MAX" and "utf8_encodable name"
  shows "\<exists>tid. ensure_tag s name = (fst (insert_or_ignore_tag s name), Inr tid) \<and>
         (tid, name) \<in> set (tags (fst (insert_or_ignore_tag s name)))"
proof -
  obtain s1 r1 where ins: "insert_or_ignore_tag s name = (s1, r1)"
    by (cases "insert_or_ignore_tag s name")
  have r1: "r1 = Inr ()"
    using insert_or_ignore_tag_ok(1) [OF assms(1,2), of name] ins by simp
  have "name \<in> snd ` set (tags s1)"
    using insert_or_ignore_tag_ok(2) [OF assms(1,2), of name] ins by simp
  then obtain t where t: "t \<in> set (tags s1)" "snd t = name" by auto
  from find_Some_mem [of t _ "\<lambda>t. snd t = name", OF t]
  obtain y where y: "find (\<lambda>t. snd t = name) (tags s1) = Some y"
    "y \<in> set (tags s1)" "snd y = name" by auto
  then have "(fst y, name) \<in> set (tags s1)"
    by (metis prod.collapse)
  moreover have "ensure_tag s name = (s1, Inr (fst y))"
    using assms(3) y(1) ins r1 by (simp add: ensure_tag_def)
  ultimately show ?thesis using ins by simp
qed

lemma update_note_missing_no_tags:
  assumes "wf_db s" and "i \<notin> n_id ` set (notes s)" and "int64 i"
    and "utf8_encodable title" and "utf8_encodable content" and "utf8_encodable now"
  shows "update_note s i title content [] now = (s, Inr ())"
  using assms utf8_encodable_title [of title] utf8_encodable_content [of content]
  by (simp add: update_note_def update_notes_absent set_note_tags_def filter_note_tags_absent)

lemma update_note_missing_tags:
  assumes "wf_db s" and "i \<notin> n_id ` set (notes s)" and "int64 i"
    and "utf8_encodable title" and "utf8_encodable content" and "utf8_encodable now"
    and "tags_seq s < INT64_MAX" and "utf8_encodable name"
  shows "update_note s i title content (name # names) now
           = (fst (insert_or_ignore_tag s name), Inl IntegrityError)"
proof -
  let ?s1 = "fst (insert_or_ignore_tag s name)"
  obtain tid where e: "ensure_tag s name = (?s1, Inr tid)" "(tid, name) \<in> set (tags ?s1)"
    using ensure_tag_ok [OF assms(1,7,8)] by blast
  have w1: "wf_db ?s1" using assms(1) by (rule wf_insert_or_ignore_tag)
  have "0 < tid \<and> tid \<le> tags_seq ?s1 \<and> tags_seq ?s1 \<le> INT64_MAX"
    using w1 e(2) by (auto simp: wf_db_def)
  then have tid: "int64 tid" by (simp add: int64_def)
  have "(i, tid) \<notin> set (note_tags ?s1)"
    using no_association_absent [OF assms(1,2)] by simp
  moreover have "i \<notin> n_id ` set (notes ?s1)"
    using assms(2) by simp
  ultimately have "insert_or_ignore_note_tag ?s1 i tid = (?s1, Inl IntegrityError)"
    by (simp add: insert_or_ignore_note_tag_def)
  with e(1) tid show ?thesis
    using assms utf8_encodable_title [of title] utf8_encodable_content [of content]
    by (simp add: update_note_def update_notes_absent set_note_tags_def filter_note_tags_absent)
qed

lemma delete_note_missing:
  assumes "wf_db s" and "i \<notin> n_id ` set (notes s)" and "int64 i"
  shows "delete_note s i = (s, Inr ())"
  using assms by (simp add: delete_note_def delete_notes_absent)

lemma toggle_pin_missing:
  assumes "wf_db s" and "i \<notin> n_id ` set (notes s)" and "int64 i" and "utf8_encodable now"
  shows "toggle_pin s i now = (s, Inr ())"
  using assms by (simp add: toggle_pin_def Let_def update_notes_absent)

text \<open>
  Claim C3. For a reachable state and a note id that is not in the notes table,
  \<open>delete_note\<close>, \<open>toggle_pin\<close> and \<open>update_note\<close> with an empty tag list return without
  an error and leave the whole state as it was. \<open>update_note\<close> with a non-empty tag list
  does not: it raises \<open>IntegrityError\<close>. The first tag name has gone through
  \<^verbatim>\<open>INSERT OR IGNORE INTO tags\<close>, which changes the state on the connection, and its
  association fails on the foreign key to the missing note. Only the rollback of the
  scoped connection restores the state, and the caller still gets the exception. (The
  arguments are values SQLite can store, and the tags table has a rowid left.)
\<close>

theorem update_note_missing_id:
  assumes "reachable s" and "note_id \<notin> n_id ` set (notes s)" and "int64 note_id"
    and "utf8_encodable title" and "utf8_encodable content" and "utf8_encodable now"
    and "tags_seq s < INT64_MAX" and "utf8_encodable name"
  shows "delete_note s note_id = (s, Inr ())
    \<and> toggle_pin s note_id now = (s, Inr ())
    \<and> update_note s note_id title content [] now = (s, Inr ())
    \<and> update_note s note_id title content (name # names) now
         = (fst (insert_or_ignore_tag s name), Inl IntegrityError)
    \<and> fst (insert_or_ignore_tag s name) \<noteq> s
    \<and> connect s (\<lambda>c. update_note c note_id title content (name # names) now)
         = (s, Inl IntegrityError)"
proof -
  have w: "wf_db s" using assms(1) by (rule reachable_wf)
  have raised: "update_note s note_id title content (name # names) now
      = (fst (insert_or_ignore_tag s name), Inl IntegrityError)"
    using w assms(2-8) by (rule update_note_missing_tags)
  then have rolled: "connect s (\<lambda>c. update_note c note_id title content (name # names) now)
      = (s, Inl IntegrityError)"
    by (simp add: connect_def)
  have "tags_seq (fst (insert_or_ignore_tag s name)) \<noteq> tags_seq s"
    using insert_or_ignore_tag_ok(3) [OF w assms(7), of name] by simp
  then have changed: "fst (insert_or_ignore_tag s name) \<noteq> s" by auto
  show ?thesis
    using raised rolled changed update_note_missing_no_tags [OF w assms(2-6)]
      delete_note_missing [OF w assms(2,3)] toggle_pin_missing [OF w assms(2,3,6)]
    by simp
qed

text \<open>On the empty database, with the missing id 1 and the one tag \<open>x\<close>.\<close>

theorem update_note_missing_id_witness:
  "delete_note init_db 1 = (init_db, Inr ())
   \<and> toggle_pin init_db 1 (u ''now'') = (init_db, Inr ())
   \<and> update_note init_db 1 (u ''t'') (u ''c'') [] (u ''now'') = (init_db, Inr ())
   \<and> update_note init_db 1 (u ''t'') (u ''c'') [u ''x''] (u ''now'')
        = (init_db\<lparr>tags := [(1, u ''x'')], tags_seq := 1\<rparr>, Inl IntegrityError)
   \<and> init_db\<lparr>tags := [(1, u ''x'')], tags_seq := 1\<rparr> \<noteq> init_db
   \<and> connect init_db (\<lambda>c. update_note c 1 (u ''t'') (u ''c'') [u ''x''] (u ''now''))
        = (init_db, Inl IntegrityError)"
proof -
  have absent: "1 \<notin> n_id ` set (notes init_db)" by (simp add: init_db_def)
  have i: "int64 1" by (simp add: int64_def INT64_MAX_def)
  have e: "utf8_encodable (u ''t'')" "utf8_encodable (u ''c'')" "utf8_encodable (u ''now'')"
      "utf8_encodable (u ''x'')"
    by (simp_all add: utf8_encodable_def u_def)
  have room: "tags_seq init_db < INT64_MAX" by (simp add: init_db_def INT64_MAX_def)
  have ins: "fst (insert_or_ignore_tag init_db (u ''x'')) = init_db\<lparr>tags := [(1, u ''x'')], tags_seq := 1\<rparr>"
    by (simp add: insert_or_ignore_tag_def init_db_def next_rowid_def INT64_MAX_def)
  from update_note_missing_id [OF reachable_init absent i e(1,2,3) room e(4), of "[]"]
  show ?thesis unfolding ins .
qed

section \<open>Tag names\<close>

lemma reachable_parsed_reachable: "reachable_parsed lower s \<Longrightarrow> reachable s"
  by (induction rule: reachable_parsed.induct) (rule reachable.intros | assumption)+

lemma run_op_tag_names:
  assumes "\<forall>t \<in> set (tags s). P (snd t)"
    and "\<forall>name \<in> (case opn of CreateNote _ _ tgs _ \<Rightarrow> set tgs
                          | UpdateNote _ _ _ tgs _ \<Rightarrow> set tgs | _ \<Rightarrow> {}). P name"
  shows "\<forall>t \<in> set (tags (fst (run_op s opn))). P (snd t)"
proof -
  from run_op_tags [of s opn] obtain new where
    new: "tags (fst (run_op s opn)) = tags s @ new"
      "snd ` set new \<subseteq> (case opn of CreateNote _ _ tgs _ \<Rightarrow> set tgs
                          | UpdateNote _ _ _ tgs _ \<Rightarrow> set tgs | _ \<Rightarrow> {})"
    by blast
  show ?thesis
    unfolding new(1) using assms new(2) by auto
qed

lemma parse_tags_ok:
  "unicode_lower lower \<Longrightarrow> \<forall>name \<in> set (parse_tags lower raw). tag_name_ok lower name"
  using parse_tags_entries [of _ lower raw] parse_tags_lowercase [of lower _ raw]
  by (auto simp: tag_name_ok_def)

lemma reachable_parsed_tag_names:
  assumes "unicode_lower lower"
  shows "reachable_parsed lower s \<Longrightarrow> \<forall>t \<in> set (tags s). tag_name_ok lower (snd t)"
proof (induction rule: reachable_parsed.induct)
  case parsed_init
  show ?case by (simp add: init_db_def)
next
  case (parsed_create s title content raw now)
  show ?case
    by (rule run_op_tag_names [OF parsed_create.IH]) (simp add: parse_tags_ok [OF assms])
next
  case (parsed_update s note_id title content raw now)
  show ?case
    by (rule run_op_tag_names [OF parsed_update.IH]) (simp add: parse_tags_ok [OF assms])
next
  case (parsed_delete s note_id)
  show ?case by (rule run_op_tag_names [OF parsed_delete.IH]) simp
next
  case (parsed_toggle s note_id now)
  show ?case by (rule run_op_tag_names [OF parsed_toggle.IH]) simp
qed

lemma work_not_lower: "\<not> (\<exists>lower. unicode_lower lower \<and> is_lower lower (u ''Work''))"
proof
  assume "\<exists>lower. unicode_lower lower \<and> is_lower lower (u ''Work'')"
  then obtain lower where l: "unicode_lower lower" "lower (u ''Work'') = u ''Work''"
    by (auto simp: is_lower_def)
  have "\<forall>c \<in> set (u ''Work''). c < 128" by (simp add: u_def)
  with l(1) have "lower (u ''Work'') = map lower_cp (u ''Work'')"
    unfolding unicode_lower_def by blast
  with l(2) show False by (simp add: u_def lower_cp_def)
qed

text \<open>
  Claim C5, as the code has it. The repository stores the tag names it is given: it is
  \<open>parse_tags\<close>, called by the form handlers before \<open>create_note\<close> and \<open>update_note\<close>,
  that makes them lowercase and at most 32 code points long. So in every state reached by
  operations whose tag lists come out of \<open>parse_tags\<close>, every row of the tags table has a
  non-empty name of at most 32 code points that \<^verbatim>\<open>str.lower\<close> leaves as it is; and in
  every reachable state, whatever the arguments were, the names of the tags table are
  pairwise distinct.
\<close>

theorem tag_names_normalized:
  "(unicode_lower lower \<longrightarrow> reachable_parsed lower s \<longrightarrow>
      (\<forall>t \<in> set (tags s). snd t \<noteq> [] \<and> lower (snd t) = snd t \<and> length (snd t) \<le> 32))
   \<and> (reachable s \<longrightarrow> distinct (map snd (tags s)))"
  using reachable_parsed_tag_names [of lower s] reachable_wf [of s]
  by (auto simp: tag_name_ok_def is_lower_def wf_db_def)

lemma create_work_example:
  "tags (fst (run_op init_db (CreateNote (u ''t'') (u ''c'') [u ''Work'', u ''aaaaaaaaaaaaaaaaaaaaaaaaaaaaaaaaa''] (u ''now''))))
     = [(1, u ''Work''), (2, u ''aaaaaaaaaaaaaaaaaaaaaaaaaaaaaaaaa'')]"
  by (simp add: create_note_def insert_note_def init_db_def set_note_tags_def ensure_tag_def
      insert_or_ignore_tag_def insert_or_ignore_note_tag_def next_rowid_def Let_def
      notes_ai_def fts_insert_def py_or_def py_strip_def py_isspace_def u_def
      utf8_encodable_def int64_def INT64_MAX_def)

theorem tag_names_normalized_witness:
  "unicode_lower ascii_lower
   \<and> tags (fst (run_op init_db (CreateNote (u ''t'') (u ''c'')
        (parse_tags ascii_lower (u ''Work, play, WORK'')) (u ''now''))))
     = [(1, u ''work''), (2, u ''play'')]
   \<and> ascii_lower (u ''work'') = u ''work'' \<and> length (u ''work'') \<le> 32
   \<and> ascii_lower (u ''play'') = u ''play'' \<and> length (u ''play'') \<le> 32
   \<and> distinct (map snd (tags (fst (run_op init_db
        (CreateNote (u ''t'') (u ''c'') (parse_tags ascii_lower (u ''Work, play, WORK'')) (u ''now''))))))"
proof -
  let ?s = "fst (run_op init_db (CreateNote (u ''t'') (u ''c'')
      (parse_tags ascii_lower (u ''Work, play, WORK'')) (u ''now'')))"
  have p: "parse_tags ascii_lower (u ''Work, play, WORK'') = [u ''work'', u ''play'']"
    by (simp add: parse_tags_def u_def COMMA_def FULLWIDTH_COMMA_def py_replace_def
        ascii_lower_def lower_cp_def py_strip_def py_isspace_def Let_def)
  have ev: "tags ?s = [(1, u ''work''), (2, u ''play'')]"
    unfolding p
    by (simp add: create_note_def insert_note_def init_db_def set_note_tags_def ensure_tag_def
      insert_or_ignore_tag_def insert_or_ignore_note_tag_def next_rowid_def Let_def
      notes_ai_def fts_insert_def py_or_def py_strip_def py_isspace_def u_def
      utf8_encodable_def int64_def INT64_MAX_def)
  have rp: "reachable_parsed ascii_lower ?s" by (rule parsed_create [OF parsed_init])
  then have r: "reachable ?s" by (rule reachable_parsed_reachable)
  from tag_names_normalized [of ascii_lower ?s] unicode_lower_ascii rp r
  have "\<forall>t \<in> set (tags ?s). snd t \<noteq> [] \<and> ascii_lower (snd t) = snd t \<and> length (snd t) \<le> 32"
    and "distinct (map snd (tags ?s))"
    by blast+
  then show ?thesis
    using ev unicode_lower_ascii by simp
qed

text \<open>
  The claim as worded fails when the repository is called with a tag list that did not
  go through \<open>parse_tags\<close>: the names are stored as given, here one with a capital
  letter, which no case mapping leaves alone, and one of 33 code points.
\<close>

theorem tag_names_normalized_counterexample:
  "reachable (fst (run_op init_db (CreateNote (u ''t'') (u ''c'') [u ''Work'', u ''aaaaaaaaaaaaaaaaaaaaaaaaaaaaaaaaa''] (u ''now''))))
   \<and> tags (fst (run_op init_db (CreateNote (u ''t'') (u ''c'') [u ''Work'', u ''aaaaaaaaaaaaaaaaaaaaaaaaaaaaaaaaa''] (u ''now''))))
       = [(1, u ''Work''), (2, u ''aaaaaaaaaaaaaaaaaaaaaaaaaaaaaaaaa'')]
   \<and> \<not> (\<exists>lower. unicode_lower lower \<and> is_lower lower (u ''Work''))
   \<and> \<not> length (u ''aaaaaaaaaaaaaaaaaaaaaaaaaaaaaaaaa'') \<le> 32"
proof -
  have "reachable (fst (run_op init_db (CreateNote (u ''t'') (u ''c'') [u ''Work'', u ''aaaaaaaaaaaaaaaaaaaaaaaaaaaaaaaaa''] (u ''now''))))"
    by (rule reachable_step [OF reachable_init])
  moreover have "\<not> length (u ''aaaaaaaaaaaaaaaaaaaaaaaaaaaaaaaaa'') \<le> 32" by (simp add: u_def)
  ultimately show ?thesis
    using create_work_example work_not_lower by blast
qed

section \<open>The order of listings\<close>

lemma set_sql_limit: "set (sql_limit limit rows) \<subseteq> set rows"
  by (auto simp: sql_limit_def dest: in_set_takeD)

lemma set_order_pinned_updated [simp]: "set (order_pinned_updated rows) = set rows"
  by (simp add: order_pinned_updated_def)

lemma tagged_notes_subset: "set (tagged_notes s name) \<subseteq> set (notes s)"
  by (auto simp: tagged_notes_def)

lemma bind_limit: "bind_parameters [PInt limit] = (if int64 limit then None else Some OverflowError)"
  by simp

lemma list_notes_unfiltered:
  "list_notes lower s None limit =
     (if int64 limit then Inr (map (summary 160 s) (sql_limit limit (order_pinned_updated (notes s))))
      else Inl OverflowError)"
  by (simp add: list_notes_def)

lemma list_notes_empty_tag: "list_notes lower s (Some []) limit = list_notes lower s None limit"
  by (simp add: list_notes_def)

lemma list_notes_filtered:
  "tg \<noteq> [] \<Longrightarrow> list_notes lower s (Some tg) limit =
     (if \<not> utf8_encodable (lower tg) then Inl UnicodeEncodeError
      else if \<not> int64 limit then Inl OverflowError
      else Inr (map (summary 160 s) (sql_limit limit (order_pinned_updated (tagged_notes s (lower tg))))))"
  by (simp add: list_notes_def)

lemma list_notes_shape:
  assumes "list_notes lower s tag limit = Inr out"
  shows "\<exists>rows. set rows \<subseteq> set (notes s) \<and>
     out = map (summary 160 s) (sql_limit limit (order_pinned_updated rows))"
proof (cases "tag = None \<or> tag = Some []")
  case True
  then have "list_notes lower s tag limit = list_notes lower s None limit"
    by (auto simp: list_notes_empty_tag)
  with assms have "out = map (summary 160 s) (sql_limit limit (order_pinned_updated (notes s)))"
    by (simp add: list_notes_unfiltered split: if_splits)
  then show ?thesis by blast
next
  case False
  then obtain tg where tg: "tag = Some tg" "tg \<noteq> []" by auto
  with assms have "out = map (summary 160 s) (sql_limit limit (order_pinned_updated
      (tagged_notes s (lower tg))))"
    by (simp add: list_notes_filtered split: if_splits)
  with tagged_notes_subset show ?thesis by blast
qed

lemma list_notes_rows:
  assumes "list_notes lower s tag limit = Inr out"
  shows "set out \<subseteq> summary 160 s ` set (notes s)"
proof -
  from list_notes_shape [OF assms] obtain rows where
    rows: "set rows \<subseteq> set (notes s)"
      "out = map (summary 160 s) (sql_limit limit (order_pinned_updated rows))"
    by blast
  have "set (sql_limit limit (order_pinned_updated rows)) \<subseteq> set (notes s)"
    using rows(1) set_sql_limit [of limit "order_pinned_updated rows"] by simp
  then show ?thesis
    unfolding rows(2) by auto
qed

lemma list_notes_returns:
  assumes "int64 limit"
    and "case tag of None \<Rightarrow> True | Some tg \<Rightarrow> utf8_encodable (lower tg)"
  shows "\<exists>out. list_notes lower s tag limit = Inr out"
proof (cases "tag = None \<or> tag = Some []")
  case True
  then have "list_notes lower s tag limit = list_notes lower s None limit"
    by (auto simp: list_notes_empty_tag)
  with assms(1) show ?thesis by (simp add: list_notes_unfiltered)
next
  case False
  then obtain tg where tg: "tag = Some tg" "tg \<noteq> []" by auto
  with assms show ?thesis by (simp add: list_notes_filtered)
qed

lemma order_pinned_updated_sorted:
  "sorted_wrt (\<lambda>a b. (n_pinned b, n_updated_at b) \<le> (n_pinned a, n_updated_at a))
     (order_pinned_updated rows)"
proof -
  have "sorted (map (\<lambda>r. (n_pinned r, n_updated_at r))
          (sort_key (\<lambda>r. (n_pinned r, n_updated_at r)) (rev rows)))"
    by (rule sorted_sort_key)
  then have "sorted_wrt (\<lambda>a b. (n_pinned a, n_updated_at a) \<le> (n_pinned b, n_updated_at b))
          (sort_key (\<lambda>r. (n_pinned r, n_updated_at r)) (rev rows))"
    by (simp add: sorted_map)
  then show ?thesis
    by (simp add: order_pinned_updated_def sorted_wrt_rev)
qed

lemma sql_limit_sorted: "sorted_wrt R rows \<Longrightarrow> sorted_wrt R (sql_limit limit rows)"
  by (simp add: sql_limit_def)

lemma key_order_pinned_first:
  assumes "n_pinned a = 0 \<or> n_pinned a = 1" and "n_pinned b = 0 \<or> n_pinned b = 1"
    and "(n_pinned b, n_updated_at b) \<le> (n_pinned a, n_updated_at a)"
  shows "pinned_first (summary n s a) (summary n s b)"
  using assms by (auto simp: pinned_first_def summary_def less_eq_prod_def)

lemma list_notes_sorted:
  assumes "wf_db s" and "list_notes lower s tag limit = Inr out"
  shows "sorted_wrt pinned_first out"
proof -
  from list_notes_shape [OF assms(2)] obtain rows where
    rows: "set rows \<subseteq> set (notes s)"
      "out = map (summary 160 s) (sql_limit limit (order_pinned_updated rows))"
    by blast
  let ?xs = "sql_limit limit (order_pinned_updated rows)"
  have sub: "set ?xs \<subseteq> set (notes s)"
    using rows(1) set_sql_limit [of limit "order_pinned_updated rows"] by simp
  have pin: "n_pinned r = 0 \<or> n_pinned r = 1" if "r \<in> set ?xs" for r
    using that sub assms(1) by (auto simp: wf_db_def)
  have "sorted_wrt (\<lambda>a b. (n_pinned b, n_updated_at b) \<le> (n_pinned a, n_updated_at a)) ?xs"
    by (rule sql_limit_sorted [OF order_pinned_updated_sorted])
  then have "sorted_wrt (\<lambda>a b. pinned_first (summary 160 s a) (summary 160 s b)) ?xs"
    by (rule sorted_wrt_mono_rel [rotated]) (simp add: key_order_pinned_first pin)
  then show ?thesis
    by (simp add: rows(2) sorted_wrt_map)
qed

lemma sorted_wrt_hd:
  assumes "sorted_wrt R xs" and "x \<in> set xs"
  shows "hd xs = x \<or> R (hd xs) x"
  using assms by (cases xs) auto

lemma list_notes_pinned_hd:
  assumes "wf_db s" and "r \<in> set (notes s)" and "n_pinned r \<noteq> 0"
    and "\<forall>x \<in> set (notes s). n_pinned x \<noteq> 0 \<longrightarrow> n_id x = n_id r" and "limit \<noteq> 0"
    and "int64 limit"
  shows "\<exists>out. list_notes lower s None limit = Inr out \<and> i_id (hd out) = n_id r"
proof -
  let ?full = "order_pinned_updated (notes s)"
  have ne: "?full \<noteq> []"
    using assms(2) set_order_pinned_updated [of "notes s"] by (metis empty_iff empty_set)
  have hd_lim: "hd (sql_limit limit ?full) = hd ?full" and ne_lim: "sql_limit limit ?full \<noteq> []"
    using assms(5) ne by (auto simp: sql_limit_def)
  have hd_in: "hd ?full \<in> set (notes s)"
    using ne hd_in_set [of ?full] by simp
  have "r \<in> set ?full" using assms(2) by simp
  from sorted_wrt_hd [OF order_pinned_updated_sorted this]
  have "n_pinned (hd ?full) \<noteq> 0"
  proof
    assume "hd ?full = r"
    then show ?thesis using assms(3) by simp
  next
    assume "(n_pinned r, n_updated_at r) \<le> (n_pinned (hd ?full), n_updated_at (hd ?full))"
    moreover have "n_pinned r = 1" "n_pinned (hd ?full) = 0 \<or> n_pinned (hd ?full) = 1"
      using assms(1,2,3) hd_in by (auto simp: wf_db_def)
    ultimately show ?thesis by (auto simp: less_eq_prod_def)
  qed
  then have "n_id (hd ?full) = n_id r" using assms(4) hd_in by blast
  then show ?thesis
    using ne_lim hd_lim assms(6) by (simp add: list_notes_unfiltered hd_map summary_def)
qed

text \<open>
  Claim C7. In every reachable state, for every tag filter and every limit, the list
  \<open>list_notes\<close> returns has every pinned note before every unpinned one, and among notes
  of the same pin state the later update first; and it does return a list when the limit
  is a 64-bit integer and the filter, lowered, is a string SQLite can take. In particular,
  when exactly one note is pinned and the limit is not 0, that note is the first of the
  unfiltered list, whatever its update time.
\<close>

theorem list_notes_pinned_first:
  assumes "reachable s"
  shows "(\<forall>out. list_notes lower s tag limit = Inr out \<longrightarrow> sorted_wrt pinned_first out)
    \<and> (int64 limit \<and> (case tag of None \<Rightarrow> True | Some tg \<Rightarrow> utf8_encodable (lower tg))
         \<longrightarrow> (\<exists>out. list_notes lower s tag limit = Inr out))
    \<and> (r \<in> set (notes s) \<and> n_pinned r \<noteq> 0
         \<and> (\<forall>x \<in> set (notes s). n_pinned x \<noteq> 0 \<longrightarrow> n_id x = n_id r)
         \<and> limit \<noteq> 0 \<and> int64 limit
       \<longrightarrow> (\<exists>out. list_notes lower s None limit = Inr out \<and> i_id (hd out) = n_id r))"
  using list_notes_sorted [OF reachable_wf [OF assms], where lower = lower and tag = tag and limit = limit]
    list_notes_returns [where limit = limit and tag = tag and lower = lower and s = s]
    list_notes_pinned_hd [OF reachable_wf [OF assms], where r = r and limit = limit and lower = lower]
  by blast

lemma three_notes_rows:
  "notes three_notes =
     [\<lparr>n_id = 1, n_title = u ''a'', n_content = u ''first'', n_pinned = 0,
        n_created_at = u ''2024-01-03'', n_updated_at = u ''2024-01-03''\<rparr>,
      \<lparr>n_id = 2, n_title = u ''b'', n_content = u ''second'', n_pinned = 1,
        n_created_at = u ''2024-01-01'', n_updated_at = u ''2024-01-00''\<rparr>,
      \<lparr>n_id = 3, n_title = u ''c'', n_content = u ''third'', n_pinned = 0,
        n_created_at = u ''2024-01-02'', n_updated_at = u ''2024-01-02''\<rparr>]"
  by (simp add: three_notes_def create_note_def insert_note_def init_db_def set_note_tags_def
      next_rowid_def Let_def notes_ai_def fts_insert_def fts_entry_def py_or_def py_strip_def
      py_isspace_def u_def toggle_pin_def update_notes_def notes_au_def fts_delete_def
      utf8_encodable_def int64_def INT64_MAX_def)

lemma three_notes_reachable: "reachable three_notes"
  unfolding three_notes_def by (intro reachable_step reachable_init)

theorem list_notes_pinned_first_witness:
  "(\<exists>out. list_notes ascii_lower three_notes None 10 = Inr out
       \<and> map i_id out = [2, 1, 3] \<and> i_id (hd out) = 2 \<and> sorted_wrt pinned_first out)"
proof -
  let ?r = "\<lparr>n_id = 2, n_title = u ''b'', n_content = u ''second'', n_pinned = 1,
        n_created_at = u ''2024-01-01'', n_updated_at = u ''2024-01-00''\<rparr>"
  have i: "int64 10" by (simp add: int64_def INT64_MAX_def)
  have hyp: "?r \<in> set (notes three_notes) \<and> n_pinned ?r \<noteq> 0
         \<and> (\<forall>x \<in> set (notes three_notes). n_pinned x \<noteq> 0 \<longrightarrow> n_id x = n_id ?r)
         \<and> (10::int) \<noteq> 0 \<and> int64 10"
    using i by (simp add: three_notes_rows)
  from list_notes_pinned_first [OF three_notes_reachable, of ascii_lower None 10 ?r] hyp
  obtain out where out: "list_notes ascii_lower three_notes None 10 = Inr out"
      "i_id (hd out) = n_id ?r" "sorted_wrt pinned_first out"
    by blast
  have "list_notes ascii_lower three_notes None 10
      = Inr (map (summary 160 three_notes) (sql_limit 10 (order_pinned_updated (notes three_notes))))"
    using i by (simp add: list_notes_unfiltered)
  with out(1) have "map i_id out
      = map i_id (map (summary 160 three_notes) (sql_limit 10 (order_pinned_updated (notes three_notes))))"
    by simp
  also have "\<dots> = [2, 1, 3]"
    by (simp add: three_notes_rows sql_limit_def order_pinned_updated_def
        summary_def u_def less_eq_prod_def)
  finally show ?thesis using out by simp
qed

section \<open>The empty tag filter\<close>

lemma mset_order_pinned_updated [simp]: "mset (order_pinned_updated rows) = mset rows"
  by (simp add: order_pinned_updated_def)

lemma length_order_pinned_updated [simp]: "length (order_pinned_updated rows) = length rows"
  by (simp add: order_pinned_updated_def)

lemma sql_limit_all:
  "limit < 0 \<or> int (length rows) \<le> limit \<Longrightarrow> sql_limit limit rows = rows"
  by (auto simp: sql_limit_def)

lemma length_sql_limit:
  "length (sql_limit limit rows) = (if limit < 0 then length rows else min (nat limit) (length rows))"
  by (simp add: sql_limit_def min_def)

text \<open>
  Claim C10. \<open>list_notes\<close> with the empty string as tag filter returns what it returns
  without a filter, for every state and every limit: the empty string is falsy, so the
  unfiltered query runs. With a 64-bit limit the result is the summaries of the rows of the
  notes table in the order of the listing, cut at the limit: as many items as there are
  notes, or as the limit allows when it is not negative and smaller; all the notes, each
  once, when the limit is negative or at least their number; and, in a reachable state,
  pinned notes first. A limit that is not a 64-bit integer raises \<open>OverflowError\<close>.
\<close>

theorem list_notes_empty_tag_is_no_filter:
  "list_notes lower s (Some []) limit = list_notes lower s None limit
   \<and> (int64 limit \<longrightarrow>
        (\<exists>out. list_notes lower s (Some []) limit = Inr out
           \<and> out = map (summary 160 s) (sql_limit limit (order_pinned_updated (notes s)))
           \<and> length out = (if limit < 0 then length (notes s) else min (nat limit) (length (notes s)))
           \<and> set out \<subseteq> summary 160 s ` set (notes s)
           \<and> (limit < 0 \<or> int (length (notes s)) \<le> limit \<longrightarrow>
                mset out = image_mset (summary 160 s) (mset (notes s)))
           \<and> (reachable s \<longrightarrow> sorted_wrt pinned_first out)))
   \<and> (\<not> int64 limit \<longrightarrow> list_notes lower s (Some []) limit = Inl OverflowError)"
proof -
  let ?out = "map (summary 160 s) (sql_limit limit (order_pinned_updated (notes s)))"
  have eq: "list_notes lower s (Some []) limit = list_notes lower s None limit"
    by (rule list_notes_empty_tag)
  have over: "\<not> int64 limit \<longrightarrow> list_notes lower s (Some []) limit = Inl OverflowError"
    by (simp add: eq list_notes_unfiltered)
  have main: "list_notes lower s (Some []) limit = Inr ?out
           \<and> length ?out = (if limit < 0 then length (notes s) else min (nat limit) (length (notes s)))
           \<and> set ?out \<subseteq> summary 160 s ` set (notes s)
           \<and> (limit < 0 \<or> int (length (notes s)) \<le> limit \<longrightarrow>
                mset ?out = image_mset (summary 160 s) (mset (notes s)))
           \<and> (reachable s \<longrightarrow> sorted_wrt pinned_first ?out)" if i: "int64 limit"
  proof -
    have r: "list_notes lower s (Some []) limit = Inr ?out"
      using i by (simp add: eq list_notes_unfiltered)
    have len: "length ?out = (if limit < 0 then length (notes s) else min (nat limit) (length (notes s)))"
      by (simp add: length_sql_limit)
    have sub: "set ?out \<subseteq> summary 160 s ` set (notes s)"
      using r by (rule list_notes_rows)
    have all: "mset ?out = image_mset (summary 160 s) (mset (notes s))"
      if "limit < 0 \<or> int (length (notes s)) \<le> limit"
    proof -
      have "sql_limit limit (order_pinned_updated (notes s)) = order_pinned_updated (notes s)"
        using that by (intro sql_limit_all) simp
      then show ?thesis by simp
    qed
    have srt: "sorted_wrt pinned_first ?out" if "reachable s"
      using list_notes_sorted [OF reachable_wf [OF that] r] .
    from r len sub all srt show ?thesis by blast
  qed
  from eq over main show ?thesis by blast
qed

theorem list_notes_empty_tag_is_no_filter_witness:
  "int64 2 \<and> reachable three_notes
   \<and> (\<exists>out. list_notes ascii_lower three_notes (Some []) 2 = Inr out
         \<and> list_notes ascii_lower three_notes None 2 = Inr out
         \<and> map i_id out = [2, 1] \<and> length out = 2 \<and> sorted_wrt pinned_first out)
   \<and> tagged_notes three_notes [] = []"
proof -
  have i: "int64 2" by (simp add: int64_def INT64_MAX_def)
  from list_notes_empty_tag_is_no_filter [of ascii_lower three_notes 2] i three_notes_reachable
  obtain out where out: "list_notes ascii_lower three_notes (Some []) 2 = Inr out"
      "list_notes ascii_lower three_notes None 2 = Inr out"
      "out = map (summary 160 three_notes) (sql_limit 2 (order_pinned_updated (notes three_notes)))"
      "sorted_wrt pinned_first out"
    by auto
  have ids: "map i_id out = [2, 1]"
    unfolding out(3)
    by (simp add: three_notes_rows sql_limit_def order_pinned_updated_def
        summary_def u_def less_eq_prod_def)
  then have len: "length out = 2" by (metis length_map length_Cons list.size(3) One_nat_def Suc_1)
  have none: "tagged_notes three_notes [] = []"
    by (simp add: tagged_notes_def three_notes_def create_note_def insert_note_def init_db_def
      set_note_tags_def next_rowid_def Let_def notes_ai_def fts_insert_def fts_entry_def
      py_or_def py_strip_def py_isspace_def u_def toggle_pin_def update_notes_def notes_au_def
      fts_delete_def utf8_encodable_def int64_def INT64_MAX_def)
  have "\<exists>out. list_notes ascii_lower three_notes (Some []) 2 = Inr out
         \<and> list_notes ascii_lower three_notes None 2 = Inr out
         \<and> map i_id out = [2, 1] \<and> length out = 2 \<and> sorted_wrt pinned_first out"
    using out(1,2,4) ids len by (intro exI [of _ out] conjI)
  with i three_notes_reachable none show ?thesis by (intro conjI)
qed

section \<open>Create, then get\<close>

lemma concat_single_match:
  "distinct nts \<Longrightarrow>
     concat (map (\<lambda>nt. if nt = k then [v] else []) nts) = (if k \<in> set nts then [v] else [])"
  by (induction nts) auto

lemma concat_map_filter:
  "concat (map (\<lambda>t. if P t then [f t] else []) ts) = map f (filter P ts)"
  by (induction ts) auto

lemma get_tags_for_note_join:
  assumes "distinct (note_tags s)"
  shows "[snd t. t \<leftarrow> tags s, nt \<leftarrow> note_tags s, snd nt = fst t \<and> fst nt = i]
           = map snd (filter (\<lambda>t. (i, fst t) \<in> set (note_tags s)) (tags s))"
proof -
  have "concat (map (\<lambda>nt. if snd nt = fst t \<and> fst nt = i then [snd t] else []) (note_tags s))
          = (if (i, fst t) \<in> set (note_tags s) then [snd t] else [])" for t :: tag_row
  proof -
    have "(\<lambda>nt. if snd nt = fst t \<and> fst nt = i then [snd t] else [])
            = (\<lambda>nt :: note_tag_row. if nt = (i, fst t) then [snd t] else [])"
      by (auto simp: fun_eq_iff)
    then show ?thesis using concat_single_match [OF assms, of "(i, fst t)" "snd t"] by simp
  qed
  then show ?thesis by (simp add: concat_map_filter)
qed

lemma sort_distinct: "distinct xs \<Longrightarrow> sort xs = sorted_list_of_set (set xs)"
  by (simp add: sorted_list_of_set_sort_remdups distinct_remdups_id)

lemma get_tags_for_note_sorted_set:
  assumes "wf_db s"
  shows "get_tags_for_note s i = sorted_list_of_set (tag_names_of s i)"
proof -
  let ?xs = "map snd (filter (\<lambda>t. (i, fst t) \<in> set (note_tags s)) (tags s))"
  have d: "distinct ?xs"
    using assms by (simp add: wf_db_def distinct_map_filter)
  have "set ?xs = tag_names_of s i"
    by (force simp: tag_names_of_def)
  moreover have "sort ?xs = sorted_list_of_set (set ?xs)"
    using d by (rule sort_distinct)
  moreover have "get_tags_for_note s i = sort ?xs"
    using assms by (simp add: get_tags_for_note_def get_tags_for_note_join wf_db_def)
  ultimately show ?thesis by simp
qed

lemma tag_names_of_cleared:
  "tag_names_of (s\<lparr>note_tags := filter (\<lambda>nt. fst nt \<noteq> i) (note_tags s)\<rparr>) i = {}"
  by (auto simp: tag_names_of_def)

lemma insert_or_ignore_note_tag_ok:
  assumes "i \<in> n_id ` set (notes s)" and "tid \<in> fst ` set (tags s)"
  shows "\<exists>s'. insert_or_ignore_note_tag s i tid = (s', Inr ())
           \<and> set (note_tags s') = insert (i, tid) (set (note_tags s))
           \<and> notes s' = notes s \<and> tags s' = tags s"
  using assms by (auto simp: insert_or_ignore_note_tag_def)

lemma tag_names_of_step:
  assumes "wf_db s1" and "tags s1 = tags s @ new" and "(tid, name) \<in> set (tags s1)"
    and "\<forall>nt \<in> set (note_tags s). snd nt \<in> fst ` set (tags s)"
    and "tags s2 = tags s1" and "set (note_tags s2) = insert (i, tid) (set (note_tags s))"
  shows "tag_names_of s2 i = insert name (tag_names_of s i)"
proof -
  have d: "distinct (map fst (tags s1))" using assms(1) by (simp add: wf_db_def)
  have same: "t = t'" if "t \<in> set (tags s1)" "t' \<in> set (tags s1)" "fst t = fst t'" for t t'
    using d that by (meson distinct_map inj_onD)
  show ?thesis
  proof (intro set_eqI iffI)
    fix x assume "x \<in> tag_names_of s2 i"
    then obtain t where t: "t \<in> set (tags s1)" "snd t = x" "(i, fst t) \<in> insert (i, tid) (set (note_tags s))"
      using assms(5,6) by (auto simp: tag_names_of_def)
    show "x \<in> insert name (tag_names_of s i)"
    proof (cases "fst t = tid")
      case True
      then have "t = (tid, name)" using same [OF t(1) assms(3)] by simp
      then show ?thesis using t(2) by auto
    next
      case False
      then have nt: "(i, fst t) \<in> set (note_tags s)" using t(3) by simp
      then obtain t' where t': "t' \<in> set (tags s)" "fst t' = fst t"
        using assms(4) by force
      then have "t' \<in> set (tags s1)" using assms(2) by simp
      then have "t' = t" using same [OF _ t(1)] t'(2) by simp
      then show ?thesis using t' nt t(2) by (auto simp: tag_names_of_def)
    qed
  next
    fix x assume "x \<in> insert name (tag_names_of s i)"
    then show "x \<in> tag_names_of s2 i"
      using assms(2,3,5,6) by (force simp: tag_names_of_def)
  qed
qed

lemma wf_tag_id_int64:
  assumes "wf_db s" and "(tid, name) \<in> set (tags s)"
  shows "int64 tid"
  using assms by (force simp: wf_db_def int64_def)

lemma set_note_tags_loop_ok:
  assumes "wf_db s" and "i \<in> n_id ` set (notes s)"
    and "\<forall>name \<in> set names. utf8_encodable name"
    and "tags_seq s + int (length names) \<le> INT64_MAX"
  shows "\<exists>s'. set_note_tags_loop s i names = (s', Inr ()) \<and> wf_db s' \<and> notes s' = notes s
           \<and> tag_names_of s' i = tag_names_of s i \<union> set names"
  using assms
proof (induction names arbitrary: s)
  case Nil
  then show ?case by simp
next
  case (Cons name names)
  let ?s1 = "fst (insert_or_ignore_tag s name)"
  have room: "tags_seq s < INT64_MAX" using Cons.prems(4) by simp
  have enc: "utf8_encodable name" using Cons.prems(3) by simp
  obtain tid where e: "ensure_tag s name = (?s1, Inr tid)" "(tid, name) \<in> set (tags ?s1)"
    using ensure_tag_ok [OF Cons.prems(1) room enc] by blast
  have w1: "wf_db ?s1" using Cons.prems(1) by (rule wf_insert_or_ignore_tag)
  have seq1: "tags_seq ?s1 = tags_seq s + 1"
    using insert_or_ignore_tag_ok(3) [OF Cons.prems(1) room] .
  obtain new where new: "tags ?s1 = tags s @ new"
    using insert_or_ignore_tag_tags by blast
  have i64: "int64 i" using wf_note_id_int64 [OF Cons.prems(1,2)] .
  have t64: "int64 tid" using wf_tag_id_int64 [OF w1 e(2)] .
  have "i \<in> n_id ` set (notes ?s1)" using Cons.prems(2) by simp
  moreover have "tid \<in> fst ` set (tags ?s1)" using e(2) by force
  ultimately obtain s2 where s2: "insert_or_ignore_note_tag ?s1 i tid = (s2, Inr ())"
    "set (note_tags s2) = insert (i, tid) (set (note_tags ?s1))" "notes s2 = notes ?s1" "tags s2 = tags ?s1"
    using insert_or_ignore_note_tag_ok by blast
  have w2: "wf_db s2"
    using wf_insert_or_ignore_note_tag [OF w1, of i tid] s2(1) by simp
  have seq2: "tags_seq s2 = tags_seq s + 1"
    using insert_or_ignore_note_tag_frame(5) [of ?s1 i tid] s2(1) seq1 by simp
  have fk: "\<forall>nt \<in> set (note_tags s). snd nt \<in> fst ` set (tags s)"
    using Cons.prems(1) by (simp add: wf_db_def)
  have names2: "tag_names_of s2 i = insert name (tag_names_of s i)"
    using tag_names_of_step [OF w1 new e(2) fk s2(4)] s2(2) by simp
  have in2: "i \<in> n_id ` set (notes s2)" using Cons.prems(2) s2(3) by simp
  have enc2: "\<forall>name \<in> set names. utf8_encodable name" using Cons.prems(3) by simp
  have room2: "tags_seq s2 + int (length names) \<le> INT64_MAX"
    using Cons.prems(4) seq2 by simp
  from Cons.IH [OF w2 in2 enc2 room2] obtain s' where
    s': "set_note_tags_loop s2 i names = (s', Inr ())" "wf_db s'" "notes s' = notes s2"
      "tag_names_of s' i = tag_names_of s2 i \<union> set names"
    by blast
  have "set_note_tags_loop s i (name # names) = (s', Inr ())"
    using e(1) s2(1) s'(1) i64 t64 by simp
  moreover have "notes s' = notes s" using s'(3) s2(3) by simp
  moreover have "tag_names_of s' i = tag_names_of s i \<union> set (name # names)"
    using s'(4) names2 by auto
  ultimately show ?case using s'(2) by blast
qed

lemma set_note_tags_ok:
  assumes "wf_db s" and "i \<in> n_id ` set (notes s)"
    and "\<forall>name \<in> set names. utf8_encodable name"
    and "tags_seq s + int (length names) \<le> INT64_MAX"
  shows "\<exists>s'. set_note_tags s i names = (s', Inr ()) \<and> wf_db s' \<and> notes s' = notes s
           \<and> tag_names_of s' i = set names"
proof -
  let ?s0 = "s\<lparr>note_tags := filter (\<lambda>nt. fst nt \<noteq> i) (note_tags s)\<rparr>"
  have "wf_db ?s0" using assms(1) by (rule wf_clear_note_tags)
  moreover have "i \<in> n_id ` set (notes ?s0)" using assms(2) by simp
  moreover have "tags_seq ?s0 + int (length names) \<le> INT64_MAX" using assms(4) by simp
  ultimately show ?thesis
    using set_note_tags_loop_ok [of ?s0 i names] assms(3) wf_note_id_int64 [OF assms(1,2)]
    by (simp add: set_note_tags_def tag_names_of_cleared del: set_note_tags_loop.simps)
qed

lemma find_appended:
  "i \<notin> n_id ` set xs \<Longrightarrow> n_id r = i \<Longrightarrow> find (\<lambda>x. n_id x = i) (xs @ [r]) = Some r"
  by (induction xs) auto

lemma insert_note_result:
  assumes "wf_db s" and "notes_seq s < INT64_MAX"
  shows "\<exists>s1 i. insert_note s t c p cr up = (s1, Inr i) \<and> i \<notin> n_id ` set (notes s)
     \<and> notes s1 = notes s @ [\<lparr>n_id = i, n_title = t, n_content = c, n_pinned = p,
                               n_created_at = cr, n_updated_at = up\<rparr>]
     \<and> tags_seq s1 = tags_seq s"
  using next_rowid_fresh [of "notes_seq s" "map n_id (notes s)"] assms
  by (simp add: insert_note_def Let_def notes_ai_def fts_insert_def next_rowid_notes)

lemma create_note_get_note:
  assumes "wf_db s" and "utf8_encodable title" and "utf8_encodable content"
    and "utf8_encodable now" and "\<forall>t \<in> set tgs. utf8_encodable t"
    and "rowids_left s (length tgs)"
  shows "\<exists>s' note_id. create_note s title content tgs now = (s', Inr note_id)
     \<and> get_note s' note_id =
         Inr (Some \<lparr>o_id = note_id, o_title = py_or (py_strip title) (u ''Untitled''),
               o_content = content, o_pinned = False, o_created_at = now, o_updated_at = now,
               o_tags = sorted_list_of_set (set tgs)\<rparr>)"
proof -
  let ?t = "py_or (py_strip title) (u ''Untitled'')"
  have c: "py_or content [] = content" by (simp add: py_or_def)
  have room: "notes_seq s < INT64_MAX" "tags_seq s + int (length tgs) \<le> INT64_MAX"
    using assms(6) by (simp_all add: rowids_left_def)
  have b: "bind_parameters [PText ?t, PText (py_or content []), PText now, PText now] = None"
    using utf8_encodable_title [OF assms(2)] assms(3,4) by (simp add: c)
  from insert_note_result [OF assms(1) room(1), of ?t content 0 now now] obtain s1 i where
    ins: "insert_note s ?t content 0 now now = (s1, Inr i)" "i \<notin> n_id ` set (notes s)"
      "notes s1 = notes s @ [\<lparr>n_id = i, n_title = ?t, n_content = content, n_pinned = 0,
                               n_created_at = now, n_updated_at = now\<rparr>]"
      "tags_seq s1 = tags_seq s"
    by blast
  have w1: "wf_db s1" using wf_insert_note [OF assms(1), of 0 ?t content now now] ins(1) by simp
  have in1: "i \<in> n_id ` set (notes s1)" by (simp add: ins(3))
  have room1: "tags_seq s1 + int (length tgs) \<le> INT64_MAX" using room(2) ins(4) by simp
  from set_note_tags_ok [OF w1 in1 assms(5) room1] obtain s2 where
    s2: "set_note_tags s1 i tgs = (s2, Inr ())" "wf_db s2" "notes s2 = notes s1"
      "tag_names_of s2 i = set tgs"
    by blast
  have cr: "create_note s title content tgs now = (s2, Inr i)"
    using b ins(1) s2(1) by (simp add: create_note_def c)
  have "i \<in> n_id ` set (notes s2)" using in1 s2(3) by simp
  then have i64: "int64 i" using wf_note_id_int64 [OF s2(2)] by blast
  have "find (\<lambda>r. n_id r = i) (notes s2)
      = Some \<lparr>n_id = i, n_title = ?t, n_content = content, n_pinned = 0,
               n_created_at = now, n_updated_at = now\<rparr>"
    unfolding s2(3) ins(3) using ins(2) by (intro find_appended) simp_all
  then have "get_note s2 i =
         Inr (Some \<lparr>o_id = i, o_title = ?t, o_content = content, o_pinned = False,
               o_created_at = now, o_updated_at = now, o_tags = sorted_list_of_set (set tgs)\<rparr>)"
    using i64 by (simp add: get_note_def get_tags_for_note_sorted_set [OF s2(2)] s2(4))
  with cr show ?thesis by blast
qed






section \<open>Search and the index\<close>

lemma dropWhile_none: "\<forall>c \<in> set xs. \<not> P c \<Longrightarrow> dropWhile P xs = xs"
  by (cases xs) auto

lemma py_strip_no_space: "\<forall>c \<in> set xs. \<not> py_isspace c \<Longrightarrow> py_strip xs = xs"
  by (simp add: py_strip_def dropWhile_none)

lemma py_replace_absent: "a \<notin> set xs \<Longrightarrow> py_replace a b xs = xs"
  unfolding py_replace_def by (induction xs) auto

lemma split_where_none: "\<forall>c \<in> set xs. \<not> P c \<Longrightarrow> split_where P xs = [xs]"
  by (induction xs) auto

lemma py_split_absent: "sep \<notin> set xs \<Longrightarrow> py_split sep xs = [xs]"
  by (induction xs) auto

lemma bareword_not_whitespace: "fts5_bareword_char c \<Longrightarrow> \<not> fts5_whitespace c"
  unfolding fts5_bareword_char_def fts5_whitespace_def by arith

lemma plain_word_query:
  assumes "plain_word tok"
  shows "py_strip (py_or tok []) = tok"
    and "filter (\<lambda>t. t \<noteq> []) (py_split SPACE (py_replace IDEOGRAPHIC_SPACE SPACE tok)) = [tok]"
    and "fts5_parse tok = Some (Inr [tok])"
proof -
  have ne: "tok \<noteq> []" and sp: "\<forall>c \<in> set tok. \<not> py_isspace c"
    and bw: "\<forall>c \<in> set tok. fts5_bareword_char c" and kw: "\<not> fts5_keyword tok"
    using assms by (auto simp: plain_word_def)
  show "py_strip (py_or tok []) = tok"
    using ne sp by (simp add: py_or_def py_strip_no_space)
  have "py_isspace IDEOGRAPHIC_SPACE" "py_isspace SPACE"
    by (simp_all add: py_isspace_def IDEOGRAPHIC_SPACE_def SPACE_def)
  then have "IDEOGRAPHIC_SPACE \<notin> set tok" "SPACE \<notin> set tok"
    using sp by blast+
  then show "filter (\<lambda>t. t \<noteq> []) (py_split SPACE (py_replace IDEOGRAPHIC_SPACE SPACE tok)) = [tok]"
    using ne by (simp add: py_replace_absent py_split_absent)
  have "\<forall>c \<in> set tok. \<not> fts5_whitespace c"
    using bw bareword_not_whitespace by blast
  then have "split_where fts5_whitespace tok = [tok]" by (rule split_where_none)
  then show "fts5_parse tok = Some (Inr [tok])"
    using ne bw kw by (simp add: fts5_parse_def)
qed

lemma search_notes_plain_word:
  assumes "plain_word tok" and "int64 limit"
  shows "search_notes tk rk s tok limit =
     Some (Inr (map (summary 180 s) (sql_limit limit
       (map snd (sort_key (\<lambda>(e, n). rk (notes_fts s) tok e)
          [(e, n). e \<leftarrow> notes_fts s, fts5_match tk [tok] e, n \<leftarrow> notes s, n_id n = fst e])))))"
proof -
  have ne: "(tok = []) = False" using assms(1) by (simp add: plain_word_def)
  have m: "py_join (u '' AND '') [tok] = tok" by simp
  have b: "bind_parameters [PText tok, PInt limit] = None"
    using assms by (simp add: plain_word_def)
  show ?thesis
    unfolding search_notes_def Let_def plain_word_query [OF assms(1)] m b
    by (simp only: ne if_False option.case sum.case)
qed

lemma fts5_match_single:
  "fts5_match tk [tok] (fts_entry r) = note_has_token tk tok r"
  by (auto simp: fts5_match_def note_has_token_def has_token_def fts_entry_def)

lemma join_inner:
  "concat (map (\<lambda>n. if n_id n = i then [(e, n)] else []) N)
      = map (Pair e) (filter (\<lambda>n. n_id n = i) N)"
  by (induction N) auto

lemma join_shape:
  "[(e, n). e \<leftarrow> F, P e, n \<leftarrow> N, n_id n = fst e]
     = concat (map (\<lambda>e. map (Pair e) (filter (\<lambda>n. n_id n = fst e) N)) (filter P F))"
  by (induction F) (simp_all add: join_inner)

lemma filter_unique:
  assumes "distinct xs" and "r \<in> set xs" and "P r" and "\<forall>x \<in> set xs. P x \<longrightarrow> x = r"
  shows "filter P xs = [r]"
proof -
  from assms(2) obtain ys zs where xs: "xs = ys @ r # zs"
    by (meson split_list)
  have "r \<notin> set ys" "r \<notin> set zs"
    using assms(1) unfolding xs by simp_all
  then have "\<forall>x \<in> set ys. \<not> P x" "\<forall>x \<in> set zs. \<not> P x"
    using assms(4) unfolding xs by fastforce+
  then have "filter P ys = []" "filter P zs = []"
    by (simp_all only: filter_empty_conv)
  then show ?thesis
    unfolding xs using assms(3) by simp
qed

lemma matching_entries:
  assumes "mset F = mset (map fts_entry N)"
  shows "mset (filter (fts5_match tk [tok]) F)
       = mset (map fts_entry (filter (note_has_token tk tok) N))"
proof -
  have "mset (filter (fts5_match tk [tok]) F) = filter_mset (fts5_match tk [tok]) (mset (map fts_entry N))"
    using assms by simp
  also have "\<dots> = mset (filter (fts5_match tk [tok]) (map fts_entry N))" by simp
  also have "\<dots> = mset (map fts_entry (filter (\<lambda>r. fts5_match tk [tok] (fts_entry r)) N))"
    by (simp only: filter_map comp_def)
  finally show ?thesis by (simp only: fts5_match_single)
qed

lemma search_nothing:
  assumes "wf_db s" and "plain_word tok" and "int64 limit"
    and "\<forall>x \<in> set (notes s). \<not> note_has_token tk tok x"
  shows "search_notes tk rk s tok limit = Some (Inr [])"
proof -
  have "filter (note_has_token tk tok) (notes s) = []"
    using assms(4) by (simp add: filter_empty_conv)
  then have "mset (filter (fts5_match tk [tok]) (notes_fts s)) = {#}"
    using matching_entries [of "notes_fts s" "notes s" tk tok] assms(1) by (simp add: wf_db_def)
  then have "filter (fts5_match tk [tok]) (notes_fts s) = []" by (simp only: mset_zero_iff)
  then show ?thesis
    unfolding search_notes_plain_word [OF assms(2,3)] join_shape by (simp add: sql_limit_def)
qed

lemma search_unique:
  assumes "wf_db s" and "plain_word tok" and "r \<in> set (notes s)"
    and "note_has_token tk tok r"
    and "\<forall>x \<in> set (notes s). note_has_token tk tok x \<longrightarrow> x = r"
    and "limit \<noteq> 0" and "int64 limit"
  shows "search_notes tk rk s tok limit = Some (Inr [summary 180 s r])"
proof -
  have d: "distinct (map n_id (notes s))" using assms(1) by (simp add: wf_db_def)
  then have "distinct (notes s)" by (simp add: distinct_map)
  then have "filter (note_has_token tk tok) (notes s) = [r]"
    using assms(3,4,5) by (rule filter_unique)
  then have "mset (filter (fts5_match tk [tok]) (notes_fts s)) = {#fts_entry r#}"
    using matching_entries [of "notes_fts s" "notes s" tk tok] assms(1) by (simp add: wf_db_def)
  then have hit: "filter (fts5_match tk [tok]) (notes_fts s) = [fts_entry r]"
    by (simp only: mset_single_iff)
  have row: "filter (\<lambda>n. n_id n = fst (fts_entry r)) (notes s) = [r]"
    using filter_id_present [OF d assms(3)] by (simp add: fts_entry_def)
  have "sql_limit limit [r] = [r]"
    using assms(6) by (simp add: sql_limit_def)
  then show ?thesis
    unfolding search_notes_plain_word [OF assms(2,7)] join_shape hit by (simp add: row)
qed

lemma create_note_shape:
  assumes "wf_db s" and "create_note s title content tgs now = (s', Inr i)"
  shows "wf_db s' \<and> i \<notin> n_id ` set (notes s)
     \<and> notes s' = notes s @ [\<lparr>n_id = i, n_title = py_or (py_strip title) (u ''Untitled''),
                               n_content = content, n_pinned = 0,
                               n_created_at = now, n_updated_at = now\<rparr>]"
proof -
  let ?t = "py_or (py_strip title) (u ''Untitled'')"
  have c: "py_or content [] = content" by (simp add: py_or_def)
  obtain s1 r1 where ins: "insert_note s ?t content 0 now now = (s1, r1)"
    by (cases "insert_note s ?t content 0 now now")
  from assms(2) ins have r1: "r1 = Inr i" and s': "s' = fst (set_note_tags s1 i tgs)"
    by (auto simp: create_note_def c split: option.splits sum.splits prod.splits)
  have i: "i = next_rowid (notes_seq s) (map n_id (notes s))"
    and n1: "notes s1 = notes s @ [\<lparr>n_id = i, n_title = ?t, n_content = content, n_pinned = 0,
                               n_created_at = now, n_updated_at = now\<rparr>]"
    using ins r1
    by (auto simp: insert_note_def Let_def notes_ai_def fts_insert_def split: if_splits)
  have fresh: "i \<notin> n_id ` set (notes s)"
    using next_rowid_fresh [of "notes_seq s" "map n_id (notes s)"] i by simp
  have "wf_db (fst (create_note s title content tgs now))"
    using assms(1) by (rule wf_create_note)
  then have w: "wf_db s'" using assms(2) by simp
  have "notes s' = notes s1"
    unfolding s' using set_note_tags_frame [of s1 i tgs] by blast
  with w fresh n1 show ?thesis by simp
qed

lemma create_note_succeeds:
  assumes "wf_db s" and "utf8_encodable title" and "utf8_encodable content"
    and "utf8_encodable now" and "\<forall>t \<in> set tgs. utf8_encodable t"
    and "rowids_left s (length tgs)"
  shows "\<exists>s' i. create_note s title content tgs now = (s', Inr i)"
  using create_note_get_note [OF assms] by blast

lemma update_note_shape:
  assumes "wf_db s" and "update_note s i title content tgs now = (s', Inr ())"
  shows "wf_db s'
     \<and> notes s' = map (\<lambda>x. if n_id x = i
                              then x\<lparr>n_title := py_or (py_strip title) (u ''Untitled''),
                                     n_content := content, n_updated_at := now\<rparr>
                              else x) (notes s)"
proof -
  let ?f = "\<lambda>x. x\<lparr>n_title := py_or (py_strip title) (u ''Untitled''),
                     n_content := py_or content [], n_updated_at := now\<rparr>"
  let ?s1 = "update_notes ?f i s"
  have c: "py_or content [] = content" by (simp add: py_or_def)
  have "wf_db (fst (update_note s i title content tgs now))"
    using assms(1) by (rule wf_update_note)
  then have w: "wf_db s'" using assms(2) by simp
  from assms(2) have "s' = fst (set_note_tags ?s1 i tgs)"
    by (auto simp: update_note_def split: option.splits)
  then have "notes s' = notes ?s1"
    using set_note_tags_frame [of ?s1 i tgs] by blast
  with w show ?thesis by (simp add: c)
qed

lemma update_note_succeeds:
  assumes "wf_db s" and "r \<in> set (notes s)"
    and "utf8_encodable title" and "utf8_encodable content"
    and "utf8_encodable now" and "\<forall>t \<in> set tgs. utf8_encodable t"
    and "tags_seq s + int (length tgs) \<le> INT64_MAX"
  shows "\<exists>s'. update_note s (n_id r) title content tgs now = (s', Inr ())"
proof -
  let ?f = "\<lambda>x. x\<lparr>n_title := py_or (py_strip title) (u ''Untitled''),
                     n_content := py_or content [], n_updated_at := now\<rparr>"
  let ?s1 = "update_notes ?f (n_id r) s"
  have i64: "int64 (n_id r)" using wf_note_id_int64 [OF assms(1)] assms(2) by blast
  have b: "bind_parameters [PText (py_or (py_strip title) (u ''Untitled'')),
      PText (py_or content []), PText now, PInt (n_id r)] = None"
    using utf8_encodable_title [OF assms(3)] utf8_encodable_content [OF assms(4)] assms(5) i64
    by simp
  have w1: "wf_db ?s1" by (rule wf_update_notes [OF assms(1)]) simp_all
  have "map n_id (notes ?s1) = map n_id (notes s)"
    by (simp add: comp_def if_distrib cong: if_cong)
  then have "n_id ` set (notes ?s1) = n_id ` set (notes s)"
    by (metis list.set_map)
  then have in1: "n_id r \<in> n_id ` set (notes ?s1)" using assms(2) by blast
  have room: "tags_seq ?s1 + int (length tgs) \<le> INT64_MAX" using assms(7) by simp
  from set_note_tags_ok [OF w1 in1 assms(6) room] obtain s2 where
    "set_note_tags ?s1 (n_id r) tgs = (s2, Inr ())" by blast
  then have "update_note s (n_id r) title content tgs now = (s2, Inr ())"
    using b by (simp add: update_note_def)
  then show ?thesis by blast
qed

lemma search_after_create_delete:
  assumes "wf_db s" and "plain_word tok" and "has_token tk tok content"
    and "\<forall>x \<in> set (notes s). \<not> note_has_token tk tok x" and "limit \<noteq> 0" and "int64 limit"
    and cr: "create_note s title content tgs now = (s', Inr note_id)"
  shows "\<exists>item. search_notes tk rk s' tok limit = Some (Inr [item]) \<and> i_id item = note_id
     \<and> delete_note s' note_id = (delete_notes note_id s', Inr ())
     \<and> search_notes tk rk (fst (delete_note s' note_id)) tok limit = Some (Inr [])"
proof -
  define new where "new = \<lparr>n_id = note_id, n_title = py_or (py_strip title) (u ''Untitled''),
                               n_content = content, n_pinned = 0,
                               n_created_at = now, n_updated_at = now\<rparr>"
  from create_note_shape [OF assms(1) cr]
  have w': "wf_db s'" and fresh: "note_id \<notin> n_id ` set (notes s)"
    and rows': "notes s' = notes s @ [new]"
    by (simp_all add: new_def)
  have mem: "new \<in> set (notes s')" by (simp add: rows')
  have has: "note_has_token tk tok new"
    using assms(3) by (simp add: note_has_token_def new_def)
  have only: "\<forall>x \<in> set (notes s'). note_has_token tk tok x \<longrightarrow> x = new"
    using assms(4) by (auto simp: rows')
  have found: "search_notes tk rk s' tok limit = Some (Inr [summary 180 s' new])"
    using w' assms(2) mem has only assms(5,6) by (rule search_unique)
  have "note_id \<in> n_id ` set (notes s')" by (simp add: rows' new_def)
  then have i64: "int64 note_id" using wf_note_id_int64 [OF w'] by blast
  have del: "delete_note s' note_id = (delete_notes note_id s', Inr ())"
    using i64 by (simp add: delete_note_def)
  have "notes (delete_notes note_id s') = notes s"
    using fresh by (simp add: rows' filter_neq_absent new_def)
  then have none: "\<forall>x \<in> set (notes (delete_notes note_id s')). \<not> note_has_token tk tok x"
    using assms(4) by simp
  have "search_notes tk rk (delete_notes note_id s') tok limit = Some (Inr [])"
    using wf_delete_notes [OF w'] assms(2,6) none by (rule search_nothing)
  then have gone: "search_notes tk rk (fst (delete_note s' note_id)) tok limit = Some (Inr [])"
    by (simp add: del)
  have "i_id (summary 180 s' new) = note_id" by (simp add: summary_def new_def)
  with found del gone show ?thesis by blast
qed

lemma search_after_update:
  assumes "wf_db s" and "r \<in> set (notes s)" and "plain_word told" and "plain_word tnew"
    and "\<forall>x \<in> set (notes s). n_id x \<noteq> n_id r \<longrightarrow>
           \<not> note_has_token tk told x \<and> \<not> note_has_token tk tnew x"
    and "\<not> has_token tk told (py_or (py_strip title) (u ''Untitled''))"
    and "\<not> has_token tk told content" and "has_token tk tnew content" and "limit \<noteq> 0"
    and "int64 limit"
    and up: "update_note s (n_id r) title content tgs now = (s', Inr ())"
  shows "\<exists>item. search_notes tk rk s' told limit = Some (Inr [])
     \<and> search_notes tk rk s' tnew limit = Some (Inr [item]) \<and> i_id item = n_id r"
proof -
  define r' where "r' = r\<lparr>n_title := py_or (py_strip title) (u ''Untitled''),
                          n_content := content, n_updated_at := now\<rparr>"
  let ?rows = "map (\<lambda>x. if n_id x = n_id r
                              then x\<lparr>n_title := py_or (py_strip title) (u ''Untitled''),
                                     n_content := content, n_updated_at := now\<rparr>
                              else x) (notes s)"
  from update_note_shape [OF assms(1) up]
  have w': "wf_db s'" and rows: "notes s' = ?rows"
    by (rule conjunct1, rule conjunct2)
  have d: "distinct (map n_id (notes s))" using assms(1) by (simp add: wf_db_def)
  have same: "y = r" if "y \<in> set (notes s)" "n_id y = n_id r" for y
    using d that assms(2) by (meson distinct_map inj_onD)
  have "(if n_id r = n_id r
            then r\<lparr>n_title := py_or (py_strip title) (u ''Untitled''),
                   n_content := content, n_updated_at := now\<rparr> else r) \<in> set ?rows"
    using assms(2) by (intro imageI [of r "set (notes s)", folded set_map])
  then have mem: "r' \<in> set (notes s')"
    unfolding rows r'_def by simp
  have others: "x = r' \<or> (x \<in> set (notes s) \<and> n_id x \<noteq> n_id r)" if "x \<in> set (notes s')" for x
  proof -
    from that obtain y where y: "y \<in> set (notes s)"
      "x = (if n_id y = n_id r
            then y\<lparr>n_title := py_or (py_strip title) (u ''Untitled''),
                   n_content := content, n_updated_at := now\<rparr> else y)"
      unfolding rows by auto
    show ?thesis
    proof (cases "n_id y = n_id r")
      case True
      then have "y = r" using same y(1) by blast
      then show ?thesis using y(2) by (simp add: r'_def)
    next
      case False
      then show ?thesis using y by simp
    qed
  qed
  have old_r': "\<not> note_has_token tk told r'"
    using assms(6,7) by (simp add: note_has_token_def r'_def)
  have new_r': "note_has_token tk tnew r'"
    using assms(8) by (simp add: note_has_token_def r'_def)
  have "\<forall>x \<in> set (notes s'). \<not> note_has_token tk told x"
    using others old_r' assms(5) by blast
  with w' assms(3,10) have gone: "search_notes tk rk s' told limit = Some (Inr [])"
    by (rule search_nothing)
  have "\<forall>x \<in> set (notes s'). note_has_token tk tnew x \<longrightarrow> x = r'"
    using others assms(5) by blast
  with w' assms(4) mem new_r'
  have found: "search_notes tk rk s' tnew limit = Some (Inr [summary 180 s' r'])"
    using assms(9,10) by (rule search_unique)
  have "i_id (summary 180 s' r') = n_id r" by (simp add: summary_def r'_def)
  with gone found show ?thesis by blast
qed


lemma ascii_tokenize_examples:
  "ascii_tokenize (u ''zebra'') = [u ''zebra'']"
  "ascii_tokenize (u ''Zebra crossing'') = [u ''zebra'', u ''crossing'']"
  "ascii_tokenize (u ''second'') = [u ''second'']"
  "ascii_tokenize (u ''fourth'') = [u ''fourth'']"
  "ascii_tokenize (u ''fourth time'') = [u ''fourth'', u ''time'']"
  "ascii_tokenize (u ''first'') = [u ''first'']"
  "ascii_tokenize (u ''third'') = [u ''third'']"
  "ascii_tokenize (u ''a'') = [u ''a'']"
  "ascii_tokenize (u ''b'') = [u ''b'']"
  "ascii_tokenize (u ''c'') = [u ''c'']"
  by (simp_all add: ascii_tokenize_def ascii_alnum_def ascii_lower_def lower_cp_def u_def)

lemma plain_word_examples:
  "plain_word (u ''zebra'')" "plain_word (u ''second'')" "plain_word (u ''fourth'')"
  by (simp_all add: plain_word_def fts5_bareword_char_def py_isspace_def fts5_keyword_def u_def
      utf8_encodable_def)

lemma three_notes_seqs: "notes_seq three_notes = 3" "tags_seq three_notes = 0"
  by (simp_all add: three_notes_def create_note_def insert_note_def init_db_def set_note_tags_def
      next_rowid_def Let_def notes_ai_def fts_insert_def fts_entry_def py_or_def py_strip_def
      py_isspace_def u_def toggle_pin_def update_notes_def notes_au_def fts_delete_def
      utf8_encodable_def int64_def INT64_MAX_def)

text \<open>
  Claim C1. In every reachable state the index holds exactly one entry for each row of
  the notes table, under the note's id and with its current title and content (the ids
  of the notes are distinct). Hence, for a query that is one plain word and a limit that
  is a 64-bit integer other than 0: after any \<open>create_note\<close> that returned, with a content
  holding a token that no other note holds, the search for it returns exactly the new
  note, and after \<open>delete_note\<close> of that note the same search returns nothing; after any
  \<open>update_note\<close> of an existing note that returned, a token that neither the new title nor
  the new content nor any other note holds is found nowhere, and a token of the new
  content that no other note holds returns exactly that note. Both operations do return
  when their strings can be stored and the tables have rowids left. The tokenizer and the
  ranking function are arbitrary.
\<close>

theorem search_index_consistent:
  assumes "reachable s"
  shows "mset (notes_fts s) = mset (map fts_entry (notes s)) \<and> distinct (map n_id (notes s))
    \<and> (plain_word tok \<and> has_token tk tok content
         \<and> (\<forall>x \<in> set (notes s). \<not> note_has_token tk tok x) \<and> limit \<noteq> 0 \<and> int64 limit \<longrightarrow>
         (\<forall>s' note_id. create_note s title content tgs now = (s', Inr note_id) \<longrightarrow>
            (\<exists>item. search_notes tk rk s' tok limit = Some (Inr [item]) \<and> i_id item = note_id
               \<and> delete_note s' note_id = (delete_notes note_id s', Inr ())
               \<and> search_notes tk rk (fst (delete_note s' note_id)) tok limit = Some (Inr [])))
         \<and> (utf8_encodable title \<and> utf8_encodable content \<and> utf8_encodable now
              \<and> (\<forall>t \<in> set tgs. utf8_encodable t) \<and> rowids_left s (length tgs) \<longrightarrow>
            (\<exists>s' note_id item. create_note s title content tgs now = (s', Inr note_id)
               \<and> search_notes tk rk s' tok limit = Some (Inr [item]) \<and> i_id item = note_id
               \<and> search_notes tk rk (fst (delete_note s' note_id)) tok limit = Some (Inr []))))
    \<and> (r \<in> set (notes s) \<and> plain_word told \<and> plain_word tnew
         \<and> (\<forall>x \<in> set (notes s). n_id x \<noteq> n_id r \<longrightarrow>
                \<not> note_has_token tk told x \<and> \<not> note_has_token tk tnew x)
         \<and> \<not> has_token tk told (py_or (py_strip title) (u ''Untitled''))
         \<and> \<not> has_token tk told content \<and> has_token tk tnew content
         \<and> limit \<noteq> 0 \<and> int64 limit \<longrightarrow>
         (\<forall>s'. update_note s (n_id r) title content tgs now = (s', Inr ()) \<longrightarrow>
            (\<exists>item. search_notes tk rk s' told limit = Some (Inr [])
               \<and> search_notes tk rk s' tnew limit = Some (Inr [item]) \<and> i_id item = n_id r))
         \<and> (utf8_encodable title \<and> utf8_encodable content \<and> utf8_encodable now
              \<and> (\<forall>t \<in> set tgs. utf8_encodable t) \<and> tags_seq s + int (length tgs) \<le> INT64_MAX \<longrightarrow>
            (\<exists>s' item. update_note s (n_id r) title content tgs now = (s', Inr ())
               \<and> search_notes tk rk s' told limit = Some (Inr [])
               \<and> search_notes tk rk s' tnew limit = Some (Inr [item]) \<and> i_id item = n_id r)))"
proof -
  have w: "wf_db s" using assms by (rule reachable_wf)
  then have inv: "mset (notes_fts s) = mset (map fts_entry (notes s))"
    and ids: "distinct (map n_id (notes s))"
    by (simp_all add: wf_db_def)
  have create: "(\<forall>s' note_id. create_note s title content tgs now = (s', Inr note_id) \<longrightarrow>
            (\<exists>item. search_notes tk rk s' tok limit = Some (Inr [item]) \<and> i_id item = note_id
               \<and> delete_note s' note_id = (delete_notes note_id s', Inr ())
               \<and> search_notes tk rk (fst (delete_note s' note_id)) tok limit = Some (Inr [])))
         \<and> (utf8_encodable title \<and> utf8_encodable content \<and> utf8_encodable now
              \<and> (\<forall>t \<in> set tgs. utf8_encodable t) \<and> rowids_left s (length tgs) \<longrightarrow>
            (\<exists>s' note_id item. create_note s title content tgs now = (s', Inr note_id)
               \<and> search_notes tk rk s' tok limit = Some (Inr [item]) \<and> i_id item = note_id
               \<and> search_notes tk rk (fst (delete_note s' note_id)) tok limit = Some (Inr [])))"
    if h: "plain_word tok \<and> has_token tk tok content
         \<and> (\<forall>x \<in> set (notes s). \<not> note_has_token tk tok x) \<and> limit \<noteq> 0 \<and> int64 limit"
  proof -
    from h have hs: "plain_word tok" "has_token tk tok content"
      "\<forall>x \<in> set (notes s). \<not> note_has_token tk tok x" "limit \<noteq> 0" "int64 limit"
      by blast+
    have given: "\<exists>item. search_notes tk rk s' tok limit = Some (Inr [item]) \<and> i_id item = note_id
               \<and> delete_note s' note_id = (delete_notes note_id s', Inr ())
               \<and> search_notes tk rk (fst (delete_note s' note_id)) tok limit = Some (Inr [])"
      if "create_note s title content tgs now = (s', Inr note_id)" for s' note_id
      using w hs that by (rule search_after_create_delete)
    have "\<exists>s' note_id item. create_note s title content tgs now = (s', Inr note_id)
               \<and> search_notes tk rk s' tok limit = Some (Inr [item]) \<and> i_id item = note_id
               \<and> search_notes tk rk (fst (delete_note s' note_id)) tok limit = Some (Inr [])"
      if st: "utf8_encodable title \<and> utf8_encodable content \<and> utf8_encodable now
              \<and> (\<forall>t \<in> set tgs. utf8_encodable t) \<and> rowids_left s (length tgs)"
    proof -
      from st have "utf8_encodable title" "utf8_encodable content" "utf8_encodable now"
        "\<forall>t \<in> set tgs. utf8_encodable t" "rowids_left s (length tgs)"
        by blast+
      with w have "\<exists>s' i. create_note s title content tgs now = (s', Inr i)"
        by (rule create_note_succeeds)
      then obtain s' i where cr: "create_note s title content tgs now = (s', Inr i)" by blast
      from given [OF cr] cr show ?thesis by blast
    qed
    with given show ?thesis by blast
  qed
  have update: "(\<forall>s'. update_note s (n_id r) title content tgs now = (s', Inr ()) \<longrightarrow>
            (\<exists>item. search_notes tk rk s' told limit = Some (Inr [])
               \<and> search_notes tk rk s' tnew limit = Some (Inr [item]) \<and> i_id item = n_id r))
         \<and> (utf8_encodable title \<and> utf8_encodable content \<and> utf8_encodable now
              \<and> (\<forall>t \<in> set tgs. utf8_encodable t) \<and> tags_seq s + int (length tgs) \<le> INT64_MAX \<longrightarrow>
            (\<exists>s' item. update_note s (n_id r) title content tgs now = (s', Inr ())
               \<and> search_notes tk rk s' told limit = Some (Inr [])
               \<and> search_notes tk rk s' tnew limit = Some (Inr [item]) \<and> i_id item = n_id r))"
    if h: "r \<in> set (notes s) \<and> plain_word told \<and> plain_word tnew
         \<and> (\<forall>x \<in> set (notes s). n_id x \<noteq> n_id r \<longrightarrow>
                \<not> note_has_token tk told x \<and> \<not> note_has_token tk tnew x)
         \<and> \<not> has_token tk told (py_or (py_strip title) (u ''Untitled''))
         \<and> \<not> has_token tk told content \<and> has_token tk tnew content
         \<and> limit \<noteq> 0 \<and> int64 limit"
  proof -
    from h have hs: "r \<in> set (notes s)" "plain_word told" "plain_word tnew"
      "\<forall>x \<in> set (notes s). n_id x \<noteq> n_id r \<longrightarrow>
                \<not> note_has_token tk told x \<and> \<not> note_has_token tk tnew x"
      "\<not> has_token tk told (py_or (py_strip title) (u ''Untitled''))"
      "\<not> has_token tk told content" "has_token tk tnew content" "limit \<noteq> 0" "int64 limit"
      by blast+
    have given: "\<exists>item. search_notes tk rk s' told limit = Some (Inr [])
               \<and> search_notes tk rk s' tnew limit = Some (Inr [item]) \<and> i_id item = n_id r"
      if "update_note s (n_id r) title content tgs now = (s', Inr ())" for s'
      using w hs that by (rule search_after_update)
    have "\<exists>s' item. update_note s (n_id r) title content tgs now = (s', Inr ())
               \<and> search_notes tk rk s' told limit = Some (Inr [])
               \<and> search_notes tk rk s' tnew limit = Some (Inr [item]) \<and> i_id item = n_id r"
      if st: "utf8_encodable title \<and> utf8_encodable content \<and> utf8_encodable now
              \<and> (\<forall>t \<in> set tgs. utf8_encodable t) \<and> tags_seq s + int (length tgs) \<le> INT64_MAX"
    proof -
      from st have "utf8_encodable title" "utf8_encodable content" "utf8_encodable now"
        "\<forall>t \<in> set tgs. utf8_encodable t" "tags_seq s + int (length tgs) \<le> INT64_MAX"
        by blast+
      with w hs(1) have "\<exists>s'. update_note s (n_id r) title content tgs now = (s', Inr ())"
        by (rule update_note_succeeds)
      then obtain s' where up: "update_note s (n_id r) title content tgs now = (s', Inr ())"
        by blast
      from given [OF up] up show ?thesis by blast
    qed
    with given show ?thesis by blast
  qed
  from inv ids create update show ?thesis by blast
qed

theorem search_index_consistent_witness:
  "mset (notes_fts three_notes) = mset (map fts_entry (notes three_notes))
   \<and> (\<exists>s' note_id item.
         create_note three_notes (u ''d'') (u ''Zebra crossing'') [] (u ''2024-01-04'') = (s', Inr note_id)
         \<and> search_notes ascii_tokenize (\<lambda>_ _ _. 0::int) s' (u ''zebra'') 50 = Some (Inr [item])
         \<and> i_id item = note_id
         \<and> search_notes ascii_tokenize (\<lambda>_ _ _. 0::int) (fst (delete_note s' note_id)) (u ''zebra'') 50
              = Some (Inr []))
   \<and> (\<exists>s' item.
         update_note three_notes 2 (u ''b'') (u ''fourth time'') [] (u ''2024-01-05'') = (s', Inr ())
         \<and> search_notes ascii_tokenize (\<lambda>_ _ _. 0::int) s' (u ''second'') 50 = Some (Inr [])
         \<and> search_notes ascii_tokenize (\<lambda>_ _ _. 0::int) s' (u ''fourth'') 50 = Some (Inr [item])
         \<and> i_id item = 2)"
proof -
  let ?r = "\<lparr>n_id = 2, n_title = u ''b'', n_content = u ''second'', n_pinned = 1,
        n_created_at = u ''2024-01-01'', n_updated_at = u ''2024-01-00''\<rparr>"
  have t: "py_or (py_strip (u ''b'')) (u ''Untitled'') = u ''b''"
    by (simp add: py_or_def py_strip_def py_isspace_def u_def)
  have i: "int64 50" by (simp add: int64_def INT64_MAX_def)
  have hyp_create: "plain_word (u ''zebra'') \<and> has_token ascii_tokenize (u ''zebra'') (u ''Zebra crossing'')
         \<and> (\<forall>x \<in> set (notes three_notes). \<not> note_has_token ascii_tokenize (u ''zebra'') x)
         \<and> (50::int) \<noteq> 0 \<and> int64 50"
    using i
    by (simp add: plain_word_examples three_notes_rows note_has_token_def has_token_def
        ascii_tokenize_examples)
       (simp add: u_def)
  have st_create: "utf8_encodable (u ''d'') \<and> utf8_encodable (u ''Zebra crossing'')
      \<and> utf8_encodable (u ''2024-01-04'') \<and> (\<forall>t \<in> set ([] :: ustring list). utf8_encodable t)
      \<and> rowids_left three_notes (length ([] :: ustring list))"
    by (simp add: utf8_encodable_def u_def rowids_left_def three_notes_seqs INT64_MAX_def)
  have hyp_update: "?r \<in> set (notes three_notes) \<and> plain_word (u ''second'') \<and> plain_word (u ''fourth'')
         \<and> (\<forall>x \<in> set (notes three_notes). n_id x \<noteq> n_id ?r \<longrightarrow>
                \<not> note_has_token ascii_tokenize (u ''second'') x
                \<and> \<not> note_has_token ascii_tokenize (u ''fourth'') x)
         \<and> \<not> has_token ascii_tokenize (u ''second'') (py_or (py_strip (u ''b'')) (u ''Untitled''))
         \<and> \<not> has_token ascii_tokenize (u ''second'') (u ''fourth time'')
         \<and> has_token ascii_tokenize (u ''fourth'') (u ''fourth time'') \<and> (50::int) \<noteq> 0 \<and> int64 50"
    unfolding t using i
    by (simp add: plain_word_examples three_notes_rows note_has_token_def has_token_def
        ascii_tokenize_examples)
       (simp add: u_def)
  have st_update: "utf8_encodable (u ''b'') \<and> utf8_encodable (u ''fourth time'')
      \<and> utf8_encodable (u ''2024-01-05'') \<and> (\<forall>t \<in> set ([] :: ustring list). utf8_encodable t)
      \<and> tags_seq three_notes + int (length ([] :: ustring list)) \<le> INT64_MAX"
    by (simp add: utf8_encodable_def u_def three_notes_seqs INT64_MAX_def)
  have id: "n_id ?r = 2" by simp
  from search_index_consistent [OF three_notes_reachable,
      where tok = "u ''zebra''" and tk = ascii_tokenize and content = "u ''Zebra crossing''"
        and limit = 50 and title = "u ''d''" and tgs = "[]" and now = "u ''2024-01-04''"
        and rk = "\<lambda>_ _ _. 0::int"]
    hyp_create st_create
  have a: "mset (notes_fts three_notes) = mset (map fts_entry (notes three_notes))"
    and b: "\<exists>s' note_id item.
         create_note three_notes (u ''d'') (u ''Zebra crossing'') [] (u ''2024-01-04'') = (s', Inr note_id)
         \<and> search_notes ascii_tokenize (\<lambda>_ _ _. 0::int) s' (u ''zebra'') 50 = Some (Inr [item])
         \<and> i_id item = note_id
         \<and> search_notes ascii_tokenize (\<lambda>_ _ _. 0::int) (fst (delete_note s' note_id)) (u ''zebra'') 50
              = Some (Inr [])"
    by blast+
  from search_index_consistent [OF three_notes_reachable,
      where tk = ascii_tokenize and limit = 50 and title = "u ''b''" and content = "u ''fourth time''"
        and tgs = "[]" and now = "u ''2024-01-05''" and rk = "\<lambda>_ _ _. 0::int"
        and r = ?r and told = "u ''second''" and tnew = "u ''fourth''"]
    hyp_update st_update
  have c: "\<exists>s' item.
         update_note three_notes (n_id ?r) (u ''b'') (u ''fourth time'') [] (u ''2024-01-05'') = (s', Inr ())
         \<and> search_notes ascii_tokenize (\<lambda>_ _ _. 0::int) s' (u ''second'') 50 = Some (Inr [])
         \<and> search_notes ascii_tokenize (\<lambda>_ _ _. 0::int) s' (u ''fourth'') 50 = Some (Inr [item])
         \<and> i_id item = n_id ?r"
    by blast
  show ?thesis
    using a b c unfolding id by (intro conjI)
qed

section \<open>Excerpts\<close>

lemma search_notes_shape:
  assumes "search_notes tk rk s q limit = Some (Inr out)"
  shows "\<exists>rows. set rows \<subseteq> set (notes s) \<and> out = map (summary 180 s) (sql_limit limit rows)"
proof (cases "py_strip (py_or q []) = []")
  case True
  with assms have "out = map (summary 180 s) (sql_limit limit [])"
    by (simp add: search_notes_def sql_limit_def)
  then show ?thesis by (metis empty_subsetI empty_set)
next
  case False
  define m where "m = py_join (u '' AND '')
      (filter (\<lambda>t. t \<noteq> []) (py_split SPACE (py_replace IDEOGRAPHIC_SPACE SPACE (py_strip (py_or q [])))))"
  from assms False obtain phrases where
    "out = map (summary 180 s) (sql_limit limit
            (map snd (sort_key (\<lambda>(e, n). rk (notes_fts s) m e)
               [(e, n). e \<leftarrow> notes_fts s, fts5_match tk phrases e, n \<leftarrow> notes s, n_id n = fst e])))"
    unfolding search_notes_def Let_def m_def [symmetric]
    by (simp split: option.splits sum.splits) blast
  moreover have "set (map snd (sort_key (\<lambda>(e, n). rk (notes_fts s) m e)
               [(e, n). e \<leftarrow> notes_fts s, fts5_match tk phrases e, n \<leftarrow> notes s, n_id n = fst e]))
          \<subseteq> set (notes s)"
    by auto
  ultimately show ?thesis by blast
qed

lemma search_notes_rows:
  assumes "search_notes tk rk s q limit = Some (Inr out)"
  shows "set out \<subseteq> summary 180 s ` set (notes s)"
proof -
  from search_notes_shape [OF assms] obtain rows where
    rows: "set rows \<subseteq> set (notes s)" "out = map (summary 180 s) (sql_limit limit rows)"
    by blast
  have "set (sql_limit limit rows) \<subseteq> set (notes s)"
    using rows(1) set_sql_limit [of limit rows] by simp
  then show ?thesis
    unfolding rows(2) by auto
qed

lemma py_strip_trailing_spaces:
  assumes "\<not> py_isspace c"
  shows "py_strip (c # replicate n SPACE) = [c]"
proof -
  have "py_isspace SPACE" by (simp add: py_isspace_def SPACE_def)
  then have "dropWhile py_isspace (replicate n SPACE @ [c]) = dropWhile py_isspace [c]"
    by (intro dropWhile_append2) simp
  then show ?thesis using assms by (simp add: py_strip_def)
qed

lemma excerpt_long:
  assumes "n < length (py_strip c)"
  shows "excerpt n c = take n (py_replace NEWLINE SPACE (py_strip c)) @ [ELLIPSIS]"
  using assms by (simp add: excerpt_def py_or_def py_replace_def Let_def)

lemma excerpt_short:
  assumes "length (py_strip c) \<le> n"
  shows "excerpt n c = py_replace NEWLINE SPACE (py_strip c)"
  using assms by (simp add: excerpt_def py_or_def py_replace_def Let_def)

lemma note_by_id:
  assumes "wf_db s" and "r \<in> set (notes s)" and "x \<in> set (notes s)" and "n_id x = n_id r"
  shows "x = r"
proof -
  have "distinct (map n_id (notes s))" using assms(1) by (simp add: wf_db_def)
  then show ?thesis using assms(2-4) by (meson distinct_map inj_onD)
qed

lemma summary_by_id:
  assumes "wf_db s" and "r \<in> set (notes s)"
    and "it \<in> summary n s ` set (notes s)" and "i_id it = n_id r"
  shows "i_excerpt it = excerpt n (n_content r)"
proof -
  from assms(3) obtain x where x: "x \<in> set (notes s)" "it = summary n s x" by blast
  then have "n_id x = n_id r" using assms(4) by (simp add: summary_def)
  then have "x = r" using note_by_id [OF assms(1,2) x(1)] by simp
  then show ?thesis using x(2) by (simp add: summary_def)
qed

lemma list_notes_excerpt:
  assumes "wf_db s" and "r \<in> set (notes s)"
    and "list_notes lower s tag limit = Inr out" and "it \<in> set out" and "i_id it = n_id r"
  shows "i_excerpt it = excerpt 160 (n_content r)"
  using summary_by_id [OF assms(1,2) _ assms(5)] list_notes_rows [OF assms(3)] assms(4) by blast

lemma search_notes_excerpt:
  assumes "wf_db s" and "r \<in> set (notes s)"
    and "search_notes tk rk s q limit = Some (Inr out)" and "it \<in> set out" and "i_id it = n_id r"
  shows "i_excerpt it = excerpt 180 (n_content r)"
  using summary_by_id [OF assms(1,2) _ assms(5)] search_notes_rows [OF assms(3)] assms(4) by blast

text \<open>
  Claim C8, as the code has it. The excerpt is cut from the trimmed content. In a
  reachable state, for a note whose content, trimmed, is longer than 160 code points, the
  excerpt of its summary in any list \<open>list_notes\<close> returns is the first 160 code points of
  the trimmed content (newlines as spaces) followed by the ellipsis; when the trimmed
  content is longer than 180, the excerpt of its summary in any list \<open>search_notes\<close>
  returns is the first 180 followed by the ellipsis. When the trimmed content is not
  longer than the bound, the excerpt is all of it, without an ellipsis.
\<close>

theorem excerpt_truncation:
  assumes "reachable s" and "r \<in> set (notes s)"
  shows "(list_notes lower s tag limit = Inr out \<and> it \<in> set out \<and> i_id it = n_id r \<longrightarrow>
      (160 < length (py_strip (n_content r)) \<longrightarrow>
         i_excerpt it = take 160 (py_replace NEWLINE SPACE (py_strip (n_content r))) @ [ELLIPSIS]
         \<and> length (i_excerpt it) = 161)
      \<and> (length (py_strip (n_content r)) \<le> 160 \<longrightarrow>
         i_excerpt it = py_replace NEWLINE SPACE (py_strip (n_content r))))
    \<and> (search_notes tk rk s q limit' = Some (Inr out') \<and> it' \<in> set out' \<and> i_id it' = n_id r \<longrightarrow>
      (180 < length (py_strip (n_content r)) \<longrightarrow>
         i_excerpt it' = take 180 (py_replace NEWLINE SPACE (py_strip (n_content r))) @ [ELLIPSIS]
         \<and> length (i_excerpt it') = 181)
      \<and> (length (py_strip (n_content r)) \<le> 180 \<longrightarrow>
         i_excerpt it' = py_replace NEWLINE SPACE (py_strip (n_content r))))"
proof -
  have w: "wf_db s" using assms(1) by (rule reachable_wf)
  have len: "length (py_replace NEWLINE SPACE (py_strip (n_content r))) = length (py_strip (n_content r))"
    by (simp add: py_replace_def)
  have l: "(160 < length (py_strip (n_content r)) \<longrightarrow>
         i_excerpt it = take 160 (py_replace NEWLINE SPACE (py_strip (n_content r))) @ [ELLIPSIS]
         \<and> length (i_excerpt it) = 161)
      \<and> (length (py_strip (n_content r)) \<le> 160 \<longrightarrow>
         i_excerpt it = py_replace NEWLINE SPACE (py_strip (n_content r)))"
    if "list_notes lower s tag limit = Inr out \<and> it \<in> set out \<and> i_id it = n_id r"
  proof -
    from that have "i_excerpt it = excerpt 160 (n_content r)"
      using list_notes_excerpt [OF w assms(2)] by blast
    then show ?thesis
      using len by (simp add: excerpt_long excerpt_short)
  qed
  have f: "(180 < length (py_strip (n_content r)) \<longrightarrow>
         i_excerpt it' = take 180 (py_replace NEWLINE SPACE (py_strip (n_content r))) @ [ELLIPSIS]
         \<and> length (i_excerpt it') = 181)
      \<and> (length (py_strip (n_content r)) \<le> 180 \<longrightarrow>
         i_excerpt it' = py_replace NEWLINE SPACE (py_strip (n_content r)))"
    if "search_notes tk rk s q limit' = Some (Inr out') \<and> it' \<in> set out' \<and> i_id it' = n_id r"
  proof -
    from that have "i_excerpt it' = excerpt 180 (n_content r)"
      using search_notes_excerpt [OF w assms(2)] by blast
    then show ?thesis
      using len by (simp add: excerpt_long excerpt_short)
  qed
  from l f show ?thesis by blast
qed

lemma py_strip_trailing_newline:
  assumes "\<forall>c \<in> set xs. \<not> py_isspace c" and "xs \<noteq> []"
  shows "py_strip (xs @ [NEWLINE]) = xs"
proof -
  have nl: "py_isspace NEWLINE" by (simp add: py_isspace_def NEWLINE_def)
  obtain x ys where xs: "xs = x # ys" using assms(2) by (cases xs) auto
  have "\<not> py_isspace x" using assms(1) xs by simp
  then have fr: "dropWhile py_isspace (xs @ [NEWLINE]) = xs @ [NEWLINE]"
    by (simp add: xs)
  have "\<forall>c \<in> set (rev xs). \<not> py_isspace c" using assms(1) by simp
  then have bk: "dropWhile py_isspace (rev xs) = rev xs" by (rule dropWhile_none)
  show ?thesis using nl by (simp add: py_strip_def fr bk)
qed

lemma create_note_no_tags:
  assumes "utf8_encodable title" and "utf8_encodable content" and "utf8_encodable now"
  shows "create_note init_db title content [] now =
     (\<lparr>notes = [\<lparr>n_id = 1, n_title = py_or (py_strip title) (u ''Untitled''), n_content = content,
                  n_pinned = 0, n_created_at = now, n_updated_at = now\<rparr>],
       notes_seq = 1, tags = [], tags_seq = 0, note_tags = [],
       notes_fts = [(1, py_or (py_strip title) (u ''Untitled''), content)]\<rparr>, Inr 1)"
proof -
  have c: "py_or content [] = content" by (simp add: py_or_def)
  show ?thesis
    using utf8_encodable_title [OF assms(1)] assms(2,3)
    by (simp add: create_note_def c insert_note_def init_db_def set_note_tags_def next_rowid_def
        Let_def notes_ai_def fts_insert_def fts_entry_def int64_def INT64_MAX_def)
qed

lemma zebra_note:
  assumes "utf8_encodable content"
  defines "s \<equiv> fst (run_op init_db (CreateNote (u ''zebra'') content [] (u ''now'')))"
  defines "r \<equiv> \<lparr>n_id = 1, n_title = u ''zebra'', n_content = content,
                  n_pinned = 0, n_created_at = u ''now'', n_updated_at = u ''now''\<rparr>"
  shows "reachable s" and "notes s = [r]"
    and "list_notes ascii_lower s None 10 = Inr [summary 160 s r]"
    and "search_notes ascii_tokenize (\<lambda>_ _ _. 0::int) s (u ''zebra'') 10 = Some (Inr [summary 180 s r])"
proof -
  show reach: "reachable s" unfolding s_def by (rule reachable_step [OF reachable_init])
  have e: "utf8_encodable (u ''zebra'')" "utf8_encodable (u ''now'')"
    by (simp_all add: utf8_encodable_def u_def)
  have t: "py_or (py_strip (u ''zebra'')) (u ''Untitled'') = u ''zebra''"
    by (simp add: py_or_def py_strip_def py_isspace_def u_def)
  show rows: "notes s = [r]"
    unfolding s_def r_def by (simp add: create_note_no_tags [OF e(1) assms(1) e(2)] t)
  have i: "int64 10" by (simp add: int64_def INT64_MAX_def)
  show "list_notes ascii_lower s None 10 = Inr [summary 160 s r]"
    using i by (simp add: list_notes_unfiltered rows sql_limit_def order_pinned_updated_def)
  have mem: "r \<in> set (notes s)" by (simp add: rows)
  have has: "note_has_token ascii_tokenize (u ''zebra'') r"
    by (simp add: note_has_token_def has_token_def r_def ascii_tokenize_examples)
  have only: "\<forall>x \<in> set (notes s). note_has_token ascii_tokenize (u ''zebra'') x \<longrightarrow> x = r"
    by (simp add: rows)
  show "search_notes ascii_tokenize (\<lambda>_ _ _. 0::int) s (u ''zebra'') 10 = Some (Inr [summary 180 s r])"
    using reachable_wf [OF reach] plain_word_examples(1) mem has only _ i
    by (rule search_unique) simp
qed

theorem excerpt_truncation_witness:
  "length (replicate 199 (97::nat) @ [NEWLINE]) = 200
   \<and> (\<exists>it it'.
        list_notes ascii_lower
          (fst (run_op init_db (CreateNote (u ''zebra'') (replicate 199 97 @ [NEWLINE]) [] (u ''now''))))
          None 10 = Inr [it]
        \<and> i_excerpt it = replicate 160 97 @ [ELLIPSIS]
        \<and> search_notes ascii_tokenize (\<lambda>_ _ _. 0::int)
          (fst (run_op init_db (CreateNote (u ''zebra'') (replicate 199 97 @ [NEWLINE]) [] (u ''now''))))
          (u ''zebra'') 10 = Some (Inr [it'])
        \<and> i_excerpt it' = replicate 180 97 @ [ELLIPSIS])"
proof -
  define content where "content = replicate 199 (97::nat) @ [NEWLINE]"
  define s where "s = fst (run_op init_db (CreateNote (u ''zebra'') content [] (u ''now'')))"
  define r where "r = \<lparr>n_id = 1, n_title = u ''zebra'', n_content = content,
                  n_pinned = 0, n_created_at = u ''now'', n_updated_at = u ''now''\<rparr>"
  have enc: "utf8_encodable content"
    by (auto simp: content_def utf8_encodable_def NEWLINE_def)
  note z = zebra_note [OF enc, folded s_def r_def]
  have mem: "r \<in> set (notes s)" by (simp add: z(2))
  have strip: "py_strip (n_content r) = replicate 199 97"
    unfolding r_def content_def
    using py_strip_trailing_newline [of "replicate 199 97"] by (simp add: py_isspace_def)
  have id160: "i_id (summary 160 s r) = n_id r" and id180: "i_id (summary 180 s r) = n_id r"
    by (simp_all add: summary_def)
  have rep: "py_replace NEWLINE SPACE (replicate 199 97) = replicate 199 97"
    by (simp add: py_replace_def NEWLINE_def)
  from excerpt_truncation [OF z(1) mem, where lower = ascii_lower and tag = None and limit = 10
      and out = "[summary 160 s r]" and it = "summary 160 s r"
      and tk = ascii_tokenize and rk = "\<lambda>_ _ _. 0::int" and q = "u ''zebra''" and limit' = 10
      and out' = "[summary 180 s r]" and it' = "summary 180 s r"]
    z(3,4) id160 id180
  have "i_excerpt (summary 160 s r) = replicate 160 97 @ [ELLIPSIS]"
    and "i_excerpt (summary 180 s r) = replicate 180 97 @ [ELLIPSIS]"
    by (simp_all add: strip rep)
  with z(3,4) have "\<exists>it it'. list_notes ascii_lower s None 10 = Inr [it]
        \<and> i_excerpt it = replicate 160 97 @ [ELLIPSIS]
        \<and> search_notes ascii_tokenize (\<lambda>_ _ _. 0::int) s (u ''zebra'') 10 = Some (Inr [it'])
        \<and> i_excerpt it' = replicate 180 97 @ [ELLIPSIS]"
    by blast
  then show ?thesis
    unfolding s_def content_def by simp
qed

text \<open>
  The claim as worded fails for a content of 200 code points that ends in white space:
  trimming leaves one code point, and neither excerpt carries an ellipsis.
\<close>

theorem excerpt_truncation_counterexample:
  "length (u ''x'' @ replicate 199 SPACE) = 200
   \<and> (\<exists>it it'.
        list_notes ascii_lower
          (fst (run_op init_db (CreateNote (u ''zebra'') (u ''x'' @ replicate 199 SPACE) [] (u ''now''))))
          None 10 = Inr [it]
        \<and> i_excerpt it = u ''x''
        \<and> search_notes ascii_tokenize (\<lambda>_ _ _. 0::int)
          (fst (run_op init_db (CreateNote (u ''zebra'') (u ''x'' @ replicate 199 SPACE) [] (u ''now''))))
          (u ''zebra'') 10 = Some (Inr [it'])
        \<and> i_excerpt it' = u ''x'')"
proof -
  define content where "content = u ''x'' @ replicate 199 SPACE"
  define s where "s = fst (run_op init_db (CreateNote (u ''zebra'') content [] (u ''now'')))"
  define r where "r = \<lparr>n_id = 1, n_title = u ''zebra'', n_content = content,
                  n_pinned = 0, n_created_at = u ''now'', n_updated_at = u ''now''\<rparr>"
  have enc: "utf8_encodable content"
    by (auto simp: content_def utf8_encodable_def SPACE_def u_def)
  note z = zebra_note [OF enc, folded s_def r_def]
  have "\<not> py_isspace 120" by (simp add: py_isspace_def)
  then have strip: "py_strip content = u ''x''"
    using py_strip_trailing_spaces [of 120 199] by (simp add: u_def content_def)
  have ex: "excerpt n content = u ''x''" if "1 \<le> n" for n
    using that by (simp add: excerpt_def py_or_def strip) (simp add: u_def py_replace_def NEWLINE_def)
  have "i_excerpt (summary 160 s r) = u ''x''" "i_excerpt (summary 180 s r) = u ''x''"
    by (simp_all add: summary_def r_def ex)
  with z(3,4) have "\<exists>it it'. list_notes ascii_lower s None 10 = Inr [it]
        \<and> i_excerpt it = u ''x''
        \<and> search_notes ascii_tokenize (\<lambda>_ _ _. 0::int) s (u ''zebra'') 10 = Some (Inr [it'])
        \<and> i_excerpt it' = u ''x''"
    by blast
  then show ?thesis
    unfolding s_def content_def by (simp add: u_def)
qed

end
